theory Spec2Isabelle
  imports Complex_Main "HOL-Library.Log_Nat"
begin

section \<open>The remote object store\<close>

text \<open>
  Both programs (\<^verbatim>\<open>app.py\<close> and \<^verbatim>\<open>cleanup_old_files.py\<close>) talk to Google Drive
  through \<^verbatim>\<open>service.files()\<close>. The store is modelled as explicit state: the objects it holds,
  in the store's own default order, the outcome schedule of the coming requests (a transport
  or server error can hit any request) and the log of the requests received so far, each with
  its outcome.

  Timestamps are instants in microseconds since the epoch, UTC: the Drive API returns
  \<^verbatim>\<open>modifiedTime\<close> as an RFC 3339 string ending in \<^verbatim>\<open>Z\<close>, which the cleanup script turns into an
  aware \<^verbatim>\<open>datetime\<close> (\<^verbatim>\<open>fromisoformat\<close> after replacing \<^verbatim>\<open>Z\<close> by \<^verbatim>\<open>+00:00\<close>); the model holds
  the parsed instant. Python's \<^verbatim>\<open>datetime\<close> and \<^verbatim>\<open>timedelta\<close> arithmetic is exact integer
  arithmetic on microseconds.
\<close>

type_synonym bytes = "char list"

datatype error =
    ValueError
  | RefreshError
  | TransportError
  | HttpError nat
  | IOError
  | OverflowError

record drive_file =
  file_id :: string
  file_name :: string
  mimeType :: string
  parents :: "string list"
  trashed :: bool
  modifiedTime :: int
  file_size :: "nat option"
  content :: bytes

text \<open>The search queries the programs build, as the terms of Drive's query language.\<close>

datatype query =
    NameEq string
  | MimeTypeEq string
  | TrashedEq bool
  | InParents string
  | And query query

datatype order_by = DefaultOrder | ModifiedTimeAsc | ModifiedTimeDesc

datatype request =
    ListReq query
  | CreateReq string string "string list"
  | DeleteReq string

record drive =
  files :: "drive_file list"
  faults :: "error option list"
  requests :: "(request \<times> error option) list"
  server_time :: int

fun matches :: "query \<Rightarrow> drive_file \<Rightarrow> bool" where
  "matches (NameEq n) f = (file_name f = n)"
| "matches (MimeTypeEq m) f = (mimeType f = m)"
| "matches (TrashedEq b) f = (trashed f = b)"
| "matches (InParents p) f = (p \<in> set (parents f))"
| "matches (And q1 q2) f = (matches q1 f \<and> matches q2 f)"

fun order_files :: "order_by \<Rightarrow> drive_file list \<Rightarrow> drive_file list" where
  "order_files DefaultOrder fs = fs"
| "order_files ModifiedTimeAsc fs = sort_key modifiedTime fs"
| "order_files ModifiedTimeDesc fs = sort_key (\<lambda>f. - modifiedTime f) fs"

text \<open>
  Every request takes the next entry of the outcome schedule (an exhausted schedule means
  no further fault) and is logged with its outcome.
\<close>

definition next_fault :: "drive \<Rightarrow> error option" where
  "next_fault d = (case faults d of [] \<Rightarrow> None | x # xs \<Rightarrow> x)"

definition record_request :: "request \<Rightarrow> error option \<Rightarrow> drive \<Rightarrow> drive" where
  "record_request r out d = d\<lparr>faults := tl (faults d), requests := requests d @ [(r, out)]\<rparr>"

text \<open>
  \<^verbatim>\<open>files().list(q, pageSize, orderBy).execute()\<close> answers with one page: at most
  \<^verbatim>\<open>pageSize\<close> entries (100 when the caller gives none) of the matching objects in the order
  asked for. Neither program follows the page token to a second page.
\<close>

definition default_page_size :: nat where
  "default_page_size = 100"

definition first_page :: "query \<Rightarrow> nat option \<Rightarrow> order_by \<Rightarrow> drive \<Rightarrow> drive_file list" where
  "first_page q page_size ord d =
     take (case page_size of None \<Rightarrow> default_page_size | Some n \<Rightarrow> n)
       (order_files ord (filter (matches q) (files d)))"

definition files_list ::
    "query \<Rightarrow> nat option \<Rightarrow> order_by \<Rightarrow> drive \<Rightarrow> (error + drive_file list) \<times> drive" where
  "files_list q page_size ord d =
     (case next_fault d of
        Some e \<Rightarrow> (Inl e, record_request (ListReq q) (Some e) d)
      | None \<Rightarrow> (Inr (first_page q page_size ord d), record_request (ListReq q) None d))"

text \<open>
  \<^verbatim>\<open>files().delete(fileId).execute()\<close> removes the object with that id; the store answers 404
  when it holds no such object.
\<close>

definition files_delete :: "string \<Rightarrow> drive \<Rightarrow> (error + unit) \<times> drive" where
  "files_delete fid d =
     (case next_fault d of
        Some e \<Rightarrow> (Inl e, record_request (DeleteReq fid) (Some e) d)
      | None \<Rightarrow>
          if fid \<in> set (map file_id (files d))
          then (Inr (), (record_request (DeleteReq fid) None d)
                          \<lparr>files := filter (\<lambda>f. file_id f \<noteq> fid) (files d)\<rparr>)
          else (Inl (HttpError 404), record_request (DeleteReq fid) (Some (HttpError 404)) d))"

text \<open>
  \<^verbatim>\<open>files().create(body, media_body).execute()\<close> adds one object under a store-assigned id,
  which is longer than every id in the store and so differs from all of them.
\<close>

definition fresh_id :: "drive \<Rightarrow> string" where
  "fresh_id d = replicate (Suc (fold max (map (\<lambda>f. length (file_id f)) (files d)) 0)) CHR ''x''"

definition files_create ::
    "string \<Rightarrow> string \<Rightarrow> string list \<Rightarrow> bytes option \<Rightarrow> drive \<Rightarrow> (error + drive_file) \<times> drive" where
  "files_create nm mime ps media d =
     (case next_fault d of
        Some e \<Rightarrow> (Inl e, record_request (CreateReq nm mime ps) (Some e) d)
      | None \<Rightarrow>
          (let f = \<lparr>file_id = fresh_id d, file_name = nm, mimeType = mime, parents = ps,
                    trashed = False, modifiedTime = server_time d,
                    file_size = map_option length media,
                    content = (case media of None \<Rightarrow> [] | Some c \<Rightarrow> c)\<rparr>
           in (Inr f, (record_request (CreateReq nm mime ps) None d)\<lparr>files := files d @ [f]\<rparr>)))"

section \<open>cleanup\_old\_files.py\<close>

definition FOLDER_NAME :: string where
  "FOLDER_NAME = ''WorkPC_Transfer''"

definition MAX_AGE_DAYS :: int where
  "MAX_AGE_DAYS = 7"

definition folder_mime :: string where
  "folder_mime = ''application/vnd.google-apps.folder''"

text \<open>\<^verbatim>\<open>timedelta(days=n)\<close> in microseconds, and \<^verbatim>\<open>timedelta.days\<close> (floor division).\<close>

definition day_us :: int where
  "day_us = 86400000000"

definition timedelta_days :: "int \<Rightarrow> int" where
  "timedelta_days n = n * day_us"

definition days_of :: "int \<Rightarrow> int" where
  "days_of delta = delta div day_us"

datatype log_event =
    StartingCleanup
  | WillDeleteOlderThan int
  | TokenExpiredRefreshing
  | TokenRefreshed
  | FolderNotFound string
  | NothingToCleanUp
  | FoundFiles nat
  | CutoffDate int
  | Deleting string int
  | Deleted string
  | Keeping string int
  | CleanupComplete nat
  | CleanupFailed error
  | PrintSuccessful nat
  | PrintFailed error

text \<open>
  What the batch job runs in: the process environment, what the credentials library
  reports about the token built from it, the store, the wall clock (\<open>clock w k\<close> is the
  \<open>k\<close>-th reading of \<^verbatim>\<open>datetime.now(timezone.utc)\<close>) and the lines logged and printed.
\<close>

record world =
  environ :: "string \<Rightarrow> string option"
  creds_valid :: bool
  creds_expired :: bool
  refresh_fails :: bool
  drive :: drive
  clock :: "nat \<Rightarrow> int"
  ticks :: nat
  logged :: "log_event list"

definition log_line :: "log_event \<Rightarrow> world \<Rightarrow> world" where
  "log_line ev w = w\<lparr>logged := logged w @ [ev]\<rparr>"

definition datetime_now :: "world \<Rightarrow> int \<times> world" where
  "datetime_now w = (clock w (ticks w), w\<lparr>ticks := Suc (ticks w)\<rparr>)"

text \<open>Python truthiness of \<^verbatim>\<open>os.environ.get(k)\<close>: absent and empty are both falsy.\<close>

definition truthy :: "string option \<Rightarrow> bool" where
  "truthy v = (case v of None \<Rightarrow> False | Some s \<Rightarrow> s \<noteq> [])"

definition required_vars :: "string list" where
  "required_vars = [''GOOGLE_TOKEN'', ''GOOGLE_REFRESH_TOKEN'', ''GOOGLE_CLIENT_ID'',
                    ''GOOGLE_CLIENT_SECRET'']"

definition get_credentials :: "world \<Rightarrow> (error + unit) \<times> world" where
  "get_credentials w =
     (let missing = filter (\<lambda>k. \<not> truthy (environ w k)) required_vars in
      if missing \<noteq> [] then (Inl ValueError, w)
      else if \<not> creds_valid w then
        (if creds_expired w \<and> truthy (environ w ''GOOGLE_REFRESH_TOKEN'') then
           (let w1 = log_line TokenExpiredRefreshing w in
            if refresh_fails w1 then (Inl RefreshError, w1)
            else (Inr (), log_line TokenRefreshed w1))
         else (Inl ValueError, w))
      else (Inr (), w))"

text \<open>
  \<^verbatim>\<open>build('drive', 'v3', ...)\<close> makes the client object from the credentials and sends
  nothing to the store; the service is the store of the world.
\<close>

definition get_drive_service :: "world \<Rightarrow> (error + unit) \<times> world" where
  "get_drive_service w = get_credentials w"

definition folder_query :: query where
  "folder_query = And (NameEq FOLDER_NAME) (And (MimeTypeEq folder_mime) (TrashedEq False))"

definition children_query :: "string \<Rightarrow> query" where
  "children_query folder_id = And (InParents folder_id) (TrashedEq False)"

definition cleanup_get_folder_id :: "world \<Rightarrow> (error + string option) \<times> world" where
  "cleanup_get_folder_id w =
     (case files_list folder_query None DefaultOrder (drive w) of
        (Inl e, d) \<Rightarrow> (Inl e, w\<lparr>drive := d\<rparr>)
      | (Inr fs, d) \<Rightarrow>
          (case fs of
             [] \<Rightarrow> (Inr None, log_line (FolderNotFound FOLDER_NAME) (w\<lparr>drive := d\<rparr>))
           | f # _ \<Rightarrow> (Inr (Some (file_id f)), w\<lparr>drive := d\<rparr>)))"

definition cleanup_list_files :: "string \<Rightarrow> world \<Rightarrow> (error + drive_file list) \<times> world" where
  "cleanup_list_files folder_id w =
     (case files_list (children_query folder_id) (Some 100) ModifiedTimeAsc (drive w) of
        (r, d) \<Rightarrow> (r, w\<lparr>drive := d\<rparr>))"

definition cleanup_delete_file :: "string \<Rightarrow> string \<Rightarrow> world \<Rightarrow> (error + unit) \<times> world" where
  "cleanup_delete_file fid nm w =
     (case files_delete fid (drive w) of
        (Inl e, d) \<Rightarrow> (Inl e, w\<lparr>drive := d\<rparr>)
      | (Inr u, d) \<Rightarrow> (Inr (), log_line (Deleted nm) (w\<lparr>drive := d\<rparr>)))"

text \<open>
  The \<^verbatim>\<open>for file in files\<close> loop of \<^verbatim>\<open>cleanup_old_files\<close>. An exception of
  \<^verbatim>\<open>delete_file\<close> is caught nowhere in the loop: it leaves the loop and the function. The
  clock is read again in each round, for the age that is logged.
\<close>

fun cleanup_loop :: "int \<Rightarrow> drive_file list \<Rightarrow> nat \<Rightarrow> world \<Rightarrow> (error + nat) \<times> world" where
  "cleanup_loop cutoff_date [] deleted_count w = (Inr deleted_count, w)"
| "cleanup_loop cutoff_date (f # fs) deleted_count w =
     (if modifiedTime f < cutoff_date then
        (case datetime_now w of
           (t, w1) \<Rightarrow>
             (case cleanup_delete_file (file_id f) (file_name f)
                     (log_line (Deleting (file_name f) (days_of (t - modifiedTime f))) w1) of
                (Inl e, w2) \<Rightarrow> (Inl e, w2)
              | (Inr u, w2) \<Rightarrow> cleanup_loop cutoff_date fs (deleted_count + 1) w2))
      else
        (case datetime_now w of
           (t, w1) \<Rightarrow>
             cleanup_loop cutoff_date fs deleted_count
               (log_line (Keeping (file_name f) (days_of (t - modifiedTime f))) w1)))"

definition cleanup_old_files :: "world \<Rightarrow> (error + nat) \<times> world" where
  "cleanup_old_files w0 =
     (case get_drive_service
             (log_line (WillDeleteOlderThan MAX_AGE_DAYS) (log_line StartingCleanup w0)) of
        (Inl e, w1) \<Rightarrow> (Inl e, w1)
      | (Inr u, w1) \<Rightarrow>
          (case cleanup_get_folder_id w1 of
             (Inl e, w2) \<Rightarrow> (Inl e, w2)
           | (Inr None, w2) \<Rightarrow> (Inr 0, log_line NothingToCleanUp w2)
           | (Inr (Some folder_id), w2) \<Rightarrow>
               if folder_id = [] then (Inr 0, log_line NothingToCleanUp w2)
               else
                 (case cleanup_list_files folder_id w2 of
                    (Inl e, w3) \<Rightarrow> (Inl e, w3)
                  | (Inr fs, w3) \<Rightarrow>
                      (case datetime_now (log_line (FoundFiles (length fs)) w3) of
                         (now, w4) \<Rightarrow>
                           (let cutoff_date = now - timedelta_days MAX_AGE_DAYS in
                            case cleanup_loop cutoff_date fs 0
                                   (log_line (CutoffDate cutoff_date) w4) of
                              (Inl e, w5) \<Rightarrow> (Inl e, w5)
                            | (Inr deleted_count, w5) \<Rightarrow>
                                (Inr deleted_count,
                                 log_line (CleanupComplete deleted_count) w5))))))"

text \<open>
  The \<^verbatim>\<open>__main__\<close> block: the process exit status. Falling off the end of the script is
  status 0; \<^verbatim>\<open>exit(1)\<close> in the handler is status 1.
\<close>

definition main :: "world \<Rightarrow> int \<times> world" where
  "main w =
     (case cleanup_old_files w of
        (Inr deleted, w1) \<Rightarrow> (0, log_line (PrintSuccessful deleted) w1)
      | (Inl e, w1) \<Rightarrow> (1, log_line (PrintFailed e) (log_line (CleanupFailed e) w1)))"

section \<open>app.py\<close>

subsection \<open>Folder resolution\<close>



definition app_list_files :: "string \<Rightarrow> drive \<Rightarrow> (error + drive_file list) \<times> drive" where
  "app_list_files folder_id d =
     files_list (children_query folder_id) (Some 100) ModifiedTimeDesc d"

subsection \<open>Upload\<close>

definition upload_file ::
    "string \<Rightarrow> string \<Rightarrow> bytes \<Rightarrow> string \<Rightarrow> drive \<Rightarrow> (error + drive_file) \<times> drive" where
  "upload_file folder_id nm file_content mime_type d =
     files_create nm mime_type [folder_id] (Some file_content) d"

text \<open>
  One entry of \<^verbatim>\<open>st.file_uploader\<close>: its name, the MIME type the browser gave (possibly none
  or empty) and what \<^verbatim>\<open>read()\<close> yields.
\<close>

record uploaded_file =
  up_name :: string
  up_type :: "string option"
  up_read :: "error + bytes"

datatype ui_event =
    StatusText string
  | UploadFailed string error
  | Progress nat nat
  | Success nat
  | Balloons
  | CacheCleared

record session =
  store :: drive
  shown :: "ui_event list"

definition display :: "ui_event \<Rightarrow> session \<Rightarrow> session" where
  "display ev s = s\<lparr>shown := shown s @ [ev]\<rparr>"

definition mime_or_default :: "string option \<Rightarrow> string" where
  "mime_or_default t = (case t of None \<Rightarrow> ''application/octet-stream''
                        | Some m \<Rightarrow> if m = [] then ''application/octet-stream'' else m)"

text \<open>
  The \<^verbatim>\<open>for i, uploaded_file in enumerate(uploaded_files)\<close> loop: the \<^verbatim>\<open>try\<close> covers the read
  and the upload of one item, its handler shows the error, and the loop goes on.
\<close>

fun upload_loop ::
    "string \<Rightarrow> nat \<Rightarrow> uploaded_file list \<Rightarrow> nat \<Rightarrow> nat \<Rightarrow> session \<Rightarrow> nat \<times> session" where
  "upload_loop folder_id n_items [] i success_count s = (success_count, s)"
| "upload_loop folder_id n_items (u # us) i success_count s =
     (let s1 = display (StatusText (''Uploading: '' @ up_name u @ ''...'')) s in
      case up_read u of
        Inl e \<Rightarrow>
          upload_loop folder_id n_items us (i + 1) success_count
            (display (Progress (i + 1) n_items) (display (UploadFailed (up_name u) e) s1))
      | Inr file_content \<Rightarrow>
          (case upload_file folder_id (up_name u) file_content (mime_or_default (up_type u))
                  (store s1) of
             (Inl e, d) \<Rightarrow>
               upload_loop folder_id n_items us (i + 1) success_count
                 (display (Progress (i + 1) n_items)
                    (display (UploadFailed (up_name u) e) (s1\<lparr>store := d\<rparr>)))
           | (Inr f, d) \<Rightarrow>
               upload_loop folder_id n_items us (i + 1) (success_count + 1)
                 (display (Progress (i + 1) n_items) (s1\<lparr>store := d\<rparr>))))"

text \<open>
  The body of the "Upload All Files" button: an empty progress bar and status line, the loop,
  the closing messages. Nothing runs for an empty selection.
\<close>

definition upload_all :: "string \<Rightarrow> uploaded_file list \<Rightarrow> session \<Rightarrow> nat \<times> session" where
  "upload_all folder_id uploaded_files s =
     (if uploaded_files = [] then (0, s)
      else
        (case upload_loop folder_id (length uploaded_files) uploaded_files 0 0
                (display (StatusText []) (display (Progress 0 (length uploaded_files)) s)) of
           (success_count, s1) \<Rightarrow>
             (let s2 = display (StatusText ''Upload complete!'') s1 in
              (success_count,
               if success_count > 0
               then display CacheCleared (display Balloons (display (Success success_count) s2))
               else s2))))"

subsection \<open>Download\<close>

text \<open>
  \<^verbatim>\<open>MediaIoBaseDownload.next_chunk()\<close> appends the next chunk to the buffer and reports whether
  the transfer is done, or raises. The answers of the store are a function of the number of
  the call; nothing bounds how long a store may keep answering "not done", so the loop is a
  partial function, and not returning is the value \<open>None\<close>.
\<close>

type_synonym chunk_source = "nat \<Rightarrow> error + (bytes \<times> bool)"

partial_function (option) download_loop ::
    "chunk_source \<Rightarrow> nat \<Rightarrow> bytes \<Rightarrow> (error + bytes \<times> nat) option" where
  "download_loop next_chunk calls file_content =
     (case next_chunk calls of
        Inl e \<Rightarrow> Some (Inl e)
      | Inr answer \<Rightarrow>
          (if snd answer then Some (Inr (file_content @ fst answer, Suc calls))
           else download_loop next_chunk (Suc calls) (file_content @ fst answer)))"

declare download_loop.simps [code]

text \<open>The result is the buffer, with the number of \<^verbatim>\<open>next_chunk\<close> calls made.\<close>

definition download_file :: "chunk_source \<Rightarrow> (error + bytes \<times> nat) option" where
  "download_file next_chunk = download_loop next_chunk 0 []"

subsection \<open>Size formatting\<close>

text \<open>
  \<^verbatim>\<open>format_size\<close> starts from a Python \<^verbatim>\<open>int\<close> and works on a \<^verbatim>\<open>float\<close> after the first
  division. A float is modelled by the rational number it stands for. \<^verbatim>\<open>int / int\<close> is the
  quotient rounded to the nearest double (53 significant bits, ties to even) and raises
  \<^verbatim>\<open>OverflowError\<close> when that is out of the doubles' range; the loop divides only values of
  at least 1024, so subnormal numbers do not occur, and a float of at least 1024 divided by
  1024 is exact.
\<close>

datatype number = PyInt int | PyFloat rat

definition round_half_even :: "rat \<Rightarrow> int" where
  "round_half_even x =
     (let f = \<lfloor>x\<rfloor>; r = x - of_int f in
      if r < 1 / 2 then f
      else if 1 / 2 < r then f + 1
      else if even f then f else f + 1)"

text \<open>Every double is below \<open>2 ^ 1024\<close>; a quotient that rounds to it or beyond overflows.\<close>

definition double_limit :: rat where
  "double_limit = 2 ^ 1024"

definition to_double :: "rat \<Rightarrow> error + rat" where
  "to_double x =
     (let e = nat (bitlen \<lfloor>x\<rfloor> - 1);
          m = round_half_even (x * 2 ^ 52 / 2 ^ e);
          y = of_int m * 2 ^ e / 2 ^ 52
      in if double_limit \<le> y then Inl OverflowError else Inr y)"

fun below_1024 :: "number \<Rightarrow> bool" where
  "below_1024 (PyInt n) = (n < 1024)"
| "below_1024 (PyFloat x) = (x < 1024)"

fun divide_1024 :: "number \<Rightarrow> error + number" where
  "divide_1024 (PyInt n) =
     (case to_double (of_int n / 1024) of Inl e \<Rightarrow> Inl e | Inr y \<Rightarrow> Inr (PyFloat y))"
| "divide_1024 (PyFloat x) = Inr (PyFloat (x / 1024))"

text \<open>
  Formatting with \<^verbatim>\<open>.1f\<close> turns an \<^verbatim>\<open>int\<close> into a float first: \<^verbatim>\<open>float(n)\<close> is \<open>n\<close> rounded to the
  nearest double, and raises \<^verbatim>\<open>OverflowError\<close> when \<open>n\<close> is out of the doubles' range.
\<close>

definition int_to_double :: "int \<Rightarrow> error + rat" where
  "int_to_double n =
     (if n = 0 then Inr 0
      else (case to_double (of_int \<bar>n\<bar>) of
              Inl e \<Rightarrow> Inl e
            | Inr y \<Rightarrow> Inr (if n < 0 then - y else y)))"

fun as_float :: "number \<Rightarrow> error + rat" where
  "as_float (PyInt n) = int_to_double n"
| "as_float (PyFloat x) = Inr x"

definition digit_char :: "nat \<Rightarrow> char" where
  "digit_char k = ''0123456789'' ! k"

fun decimal :: "nat \<Rightarrow> string" where
  "decimal n = (if n < 10 then [digit_char n] else decimal (n div 10) @ [digit_char (n mod 10)])"

text \<open>The format \<^verbatim>\<open>.1f\<close>: the value rounded to one decimal, ties to even.\<close>

definition format_1f :: "rat \<Rightarrow> string" where
  "format_1f x =
     (let t = round_half_even (x * 10) in
      (if t < 0 then ''-'' else []) @ decimal (nat \<bar>t\<bar> div 10) @ ''.'' @
        [digit_char (nat \<bar>t\<bar> mod 10)])"

text \<open>The f-string \<^verbatim>\<open>f"{size_bytes:.1f} {unit}"\<close>.\<close>

definition format_number :: "number \<Rightarrow> string \<Rightarrow> error + string" where
  "format_number v unit =
     (case as_float v of Inl e \<Rightarrow> Inl e | Inr x \<Rightarrow> Inr (format_1f x @ '' '' @ unit))"

fun format_loop :: "string list \<Rightarrow> number \<Rightarrow> error + string" where
  "format_loop [] v = format_number v ''TB''"
| "format_loop (unit # units) v =
     (if below_1024 v then format_number v unit
      else (case divide_1024 v of Inl e \<Rightarrow> Inl e | Inr v' \<Rightarrow> format_loop units v'))"

text \<open>
  The argument is the \<^verbatim>\<open>size\<close> field of a listed object after \<^verbatim>\<open>int(...)\<close>, or \<^verbatim>\<open>None\<close> when the
  object has none. Its only caller passes \<^verbatim>\<open>file.get('size')\<close>, which the Drive API fills with
  a signed 64-bit count of bytes: the counts the function receives are below \<open>2 ^ 63\<close>.
\<close>

definition drive_size_limit :: int where
  "drive_size_limit = 2 ^ 63"

definition format_size :: "int option \<Rightarrow> error + string" where
  "format_size size_bytes =
     (case size_bytes of
        None \<Rightarrow> Inr ''N/A''
      | Some n \<Rightarrow> format_loop [''B'', ''KB'', ''MB'', ''GB''] (PyInt n))"

section \<open>Notions used in the statements\<close>

text \<open>
  The objects of a listing that the loop decides to delete under a cutoff, the log entry of a
  delete request that went through, and the cutoff a run computes: its first reading of the
  clock minus the retention window.
\<close>

definition eligible :: "int \<Rightarrow> drive_file list \<Rightarrow> drive_file list" where
  "eligible cutoff_date fs = filter (\<lambda>f. modifiedTime f < cutoff_date) fs"

definition ok_delete :: "drive_file \<Rightarrow> request \<times> error option" where
  "ok_delete f = (DeleteReq (file_id f), None)"

definition cutoff_of :: "world \<Rightarrow> int" where
  "cutoff_of w = clock w (ticks w) - timedelta_days MAX_AGE_DAYS"

text \<open>The requests a run added to the store's log.\<close>

definition new_requests :: "drive \<Rightarrow> drive \<Rightarrow> (request \<times> error option) list" where
  "new_requests d d' = drop (length (requests d)) (requests d')"

text \<open>The error lines of the upload tab, and the bytes of the \<open>k\<close>-th answer of a download.\<close>

fun upload_failed :: "ui_event \<Rightarrow> bool" where
  "upload_failed (UploadFailed nm e) = True"
| "upload_failed ev = False"

definition chunk_at :: "chunk_source \<Rightarrow> nat \<Rightarrow> bytes" where
  "chunk_at next_chunk k = (case next_chunk k of Inl e \<Rightarrow> [] | Inr answer \<Rightarrow> fst answer)"

text \<open>
  The least byte count whose quotient by 1024 rounds to \<open>2 ^ 1024\<close>: half a unit in the last
  place below \<open>2 ^ 1024 * 1024\<close>.
\<close>

definition overflow_from :: int where
  "overflow_from = 2 ^ 1034 - 2 ^ 980"

section \<open>Example data\<close>

definition example_environ :: "string \<Rightarrow> string option" where
  "example_environ k = (if k \<in> set required_vars then Some ''secret'' else None)"

definition staging_folder :: drive_file where
  "staging_folder =
     \<lparr>file_id = ''folder1'', file_name = FOLDER_NAME, mimeType = folder_mime, parents = [],
      trashed = False, modifiedTime = 0, file_size = None, content = []\<rparr>"

definition example_file :: "string \<Rightarrow> int \<Rightarrow> drive_file" where
  "example_file fid t =
     \<lparr>file_id = fid, file_name = fid @ ''.txt'', mimeType = ''text/plain'',
      parents = [''folder1''], trashed = False, modifiedTime = t, file_size = Some 0,
      content = []\<rparr>"

definition example_now :: int where
  "example_now = 100 * day_us"

definition example_drive :: "drive_file list \<Rightarrow> error option list \<Rightarrow> drive" where
  "example_drive fs fl = \<lparr>files = fs, faults = fl, requests = [], server_time = example_now\<rparr>"

definition example_world :: "drive_file list \<Rightarrow> error option list \<Rightarrow> world" where
  "example_world fs fl =
     \<lparr>environ = example_environ, creds_valid = True, creds_expired = False,
      refresh_fails = False, drive = example_drive fs fl,
      clock = (\<lambda>k. example_now + int k), ticks = 0, logged = []\<rparr>"

text \<open>
  Objects at the retention boundary: one modified exactly seven days before the clock
  reading, one a second earlier, one thirty days old.
\<close>

definition kept_file :: drive_file where
  "kept_file = example_file ''kept'' (example_now - timedelta_days MAX_AGE_DAYS)"

definition old_file :: drive_file where
  "old_file = example_file ''old'' (example_now - timedelta_days MAX_AGE_DAYS - 1000000)"

definition older_file :: drive_file where
  "older_file = example_file ''older'' (example_now - timedelta_days 30)"

definition boundary_world :: world where
  "boundary_world = example_world [staging_folder, kept_file, old_file] []"

text \<open>A run in which the first delete call is answered 404, and one in which the second
  delete call meets a transport error after the first went through.\<close>

definition gone_world :: world where
  "gone_world =
     example_world [staging_folder, older_file, old_file] [None, None, Some (HttpError 404)]"

definition partial_world :: world where
  "partial_world =
     example_world [staging_folder, kept_file, old_file, older_file]
       [None, None, None, Some TransportError]"

text \<open>A staging folder that holds 101 objects, the \<open>k\<close>-th modified at instant \<open>k\<close>.\<close>

definition crowded_files :: "drive_file list" where
  "crowded_files = map (\<lambda>k. example_file (replicate (Suc k) CHR ''a'') (int k)) [0..<101]"

definition crowded_world :: world where
  "crowded_world = example_world (staging_folder # crowded_files) []"

text \<open>Three selected files, the upload of the second of which meets a transport error.\<close>

definition example_uploads :: "uploaded_file list" where
  "example_uploads =
     [\<lparr>up_name = ''a.txt'', up_type = Some ''text/plain'', up_read = Inr ''A''\<rparr>,
      \<lparr>up_name = ''b.bin'', up_type = None, up_read = Inr ''B''\<rparr>,
      \<lparr>up_name = ''c.txt'', up_type = Some [], up_read = Inr ''C''\<rparr>]"

definition example_session :: session where
  "example_session =
     \<lparr>store = example_drive [staging_folder] [None, Some TransportError, None], shown = []\<rparr>"

text \<open>A download answered in three chunks.\<close>

definition three_chunks :: chunk_source where
  "three_chunks k = Inr (if k = 0 then ''A'' else if k = 1 then ''B'' else ''C'', k = 2)"



section \<open>The store and the sweep loop\<close>

lemma files_delete_requests:
  "files_delete fid d = (r, d') \<Longrightarrow>
     requests d' = requests d @ [(DeleteReq fid, case r of Inl e \<Rightarrow> Some e | Inr u \<Rightarrow> None)]"
  by (auto simp: files_delete_def record_request_def split: option.splits if_splits)

lemma files_delete_files:
  "files_delete fid d = (r, d') \<Longrightarrow>
     files d' = (case r of Inl e \<Rightarrow> files d | Inr u \<Rightarrow> filter (\<lambda>f. file_id f \<noteq> fid) (files d))"
  by (auto simp: files_delete_def record_request_def split: option.splits if_splits)

lemma cleanup_delete_file_requests:
  "cleanup_delete_file fid nm w = (r, w') \<Longrightarrow>
     requests (drive w') =
       requests (drive w) @ [(DeleteReq fid, case r of Inl e \<Rightarrow> Some e | Inr u \<Rightarrow> None)]"
  by (auto simp: cleanup_delete_file_def log_line_def split: prod.splits sum.splits
           dest!: files_delete_requests)

lemma cleanup_delete_file_files:
  "cleanup_delete_file fid nm w = (r, w') \<Longrightarrow>
     files (drive w') =
       (case r of Inl e \<Rightarrow> files (drive w)
        | Inr u \<Rightarrow> filter (\<lambda>f. file_id f \<noteq> fid) (files (drive w)))"
  by (auto simp: cleanup_delete_file_def log_line_def split: prod.splits sum.splits
           dest!: files_delete_files)

lemma files_list_frame:
  "files_list q ps ord d = (r, d') \<Longrightarrow>
     files d' = files d \<and>
     requests d' = requests d @ [(ListReq q, case r of Inl e \<Rightarrow> Some e | Inr fs \<Rightarrow> None)]"
  by (auto simp: files_list_def record_request_def split: option.splits)

lemma get_credentials_frame:
  "get_credentials w = (r, w1) \<Longrightarrow>
     drive w1 = drive w \<and> clock w1 = clock w \<and> ticks w1 = ticks w"
  by (auto simp: get_credentials_def log_line_def Let_def split: if_splits)

lemma get_credentials_log_line:
  "fst (get_credentials (log_line ev w)) = fst (get_credentials w)"
  by (simp add: get_credentials_def log_line_def Let_def)

lemma cleanup_loop_effect:
  "cleanup_loop c fs n w = (r, w') \<Longrightarrow>
     \<exists>k \<le> length (eligible c fs).
       files (drive w') =
         filter (\<lambda>f. file_id f \<notin> set (map file_id (take k (eligible c fs)))) (files (drive w)) \<and>
       (case r of
          Inr m \<Rightarrow> k = length (eligible c fs) \<and> m = n + k \<and>
                   requests (drive w') = requests (drive w) @ map ok_delete (eligible c fs)
        | Inl e \<Rightarrow> k < length (eligible c fs) \<and>
                   requests (drive w') =
                     requests (drive w) @ map ok_delete (take k (eligible c fs)) @
                       [(DeleteReq (file_id (eligible c fs ! k)), Some e)])"
proof (induction fs arbitrary: n w)
  case Nil
  then show ?case by (auto simp: eligible_def)
next
  case (Cons f fs)
  show ?case
  proof (cases "modifiedTime f < c")
    case False
    define w1 where "w1 = log_line (Keeping (file_name f) (days_of (clock w (ticks w) - modifiedTime f)))
            (w\<lparr>ticks := Suc (ticks w)\<rparr>)"
    have w1: "files (drive w1) = files (drive w)" "requests (drive w1) = requests (drive w)"
      by (simp_all add: w1_def log_line_def)
    have E: "eligible c (f # fs) = eligible c fs"
      using False by (simp add: eligible_def)
    from False Cons.prems have "cleanup_loop c fs n w1 = (r, w')"
      by (simp add: datetime_now_def w1_def)
    from Cons.IH [OF this] show ?thesis
      unfolding E w1 .
  next
    case True
    define w1 where "w1 = log_line (Deleting (file_name f) (days_of (clock w (ticks w) - modifiedTime f)))
            (w\<lparr>ticks := Suc (ticks w)\<rparr>)"
    have w1: "files (drive w1) = files (drive w)" "requests (drive w1) = requests (drive w)"
      by (simp_all add: w1_def log_line_def)
    have E: "eligible c (f # fs) = f # eligible c fs"
      using True by (simp add: eligible_def)
    obtain r1 w2 where del: "cleanup_delete_file (file_id f) (file_name f) w1 = (r1, w2)"
      by (cases "cleanup_delete_file (file_id f) (file_name f) w1")
    note fl = cleanup_delete_file_files [OF del]
    note rq = cleanup_delete_file_requests [OF del]
    show ?thesis
    proof (cases r1)
      case (Inl e)
      with True Cons.prems del have "r = Inl e" "w' = w2"
        by (simp_all add: datetime_now_def w1_def)
      with fl rq Inl w1 show ?thesis
        by (intro exI [of _ 0]) (simp add: E)
    next
      case (Inr u)
      with True Cons.prems del have rec: "cleanup_loop c fs (n + 1) w2 = (r, w')"
        by (simp add: datetime_now_def w1_def)
      from Cons.IH [OF rec] obtain k where k: "k \<le> length (eligible c fs)"
        "files (drive w') =
           filter (\<lambda>g. file_id g \<notin> set (map file_id (take k (eligible c fs)))) (files (drive w2))"
        "case r of
          Inr m \<Rightarrow> k = length (eligible c fs) \<and> m = n + 1 + k \<and>
                   requests (drive w') = requests (drive w2) @ map ok_delete (eligible c fs)
        | Inl e \<Rightarrow> k < length (eligible c fs) \<and>
                   requests (drive w') =
                     requests (drive w2) @ map ok_delete (take k (eligible c fs)) @
                       [(DeleteReq (file_id (eligible c fs ! k)), Some e)]"
        by blast
      have "files (drive w') =
          filter (\<lambda>g. file_id g \<notin> set (map file_id (take (Suc k) (eligible c (f # fs)))))
            (files (drive w))"
        using k(2) fl Inr w1 by (auto simp: E intro: filter_cong)
      moreover have "case r of
          Inr m \<Rightarrow> Suc k = length (eligible c (f # fs)) \<and> m = n + Suc k \<and>
                   requests (drive w') = requests (drive w) @ map ok_delete (eligible c (f # fs))
        | Inl e \<Rightarrow> Suc k < length (eligible c (f # fs)) \<and>
                   requests (drive w') =
                     requests (drive w) @ map ok_delete (take (Suc k) (eligible c (f # fs))) @
                       [(DeleteReq (file_id (eligible c (f # fs) ! Suc k)), Some e)]"
        using k(3) rq Inr w1 by (cases r) (simp_all add: E ok_delete_def)
      ultimately show ?thesis
        using k(1) by (intro exI [of _ "Suc k"]) (simp add: E)
    qed
  qed
qed

lemma cleanup_old_files_sweep:
  assumes creds: "fst (get_credentials w) = Inr ()"
    and folder: "files_list folder_query None DefaultOrder (drive w) = (Inr (folder # others), d1)"
    and nonempty: "file_id folder \<noteq> []"
    and listing: "files_list (children_query (file_id folder)) (Some 100) ModifiedTimeAsc d1 =
                    (Inr fs, d2)"
  shows "\<exists>w4. drive w4 = d2 \<and>
           cleanup_old_files w =
             (case cleanup_loop (cutoff_of w) fs 0 w4 of
                (Inl e, w5) \<Rightarrow> (Inl e, w5)
              | (Inr n, w5) \<Rightarrow> (Inr n, log_line (CleanupComplete n) w5))"
proof -
  define w0 where "w0 = log_line (WillDeleteOlderThan MAX_AGE_DAYS) (log_line StartingCleanup w)"
  obtain r1 w1 where c1: "get_credentials w0 = (r1, w1)"
    by (cases "get_credentials w0")
  have "r1 = Inr ()"
    using c1 creds get_credentials_log_line [of "WillDeleteOlderThan MAX_AGE_DAYS" "log_line StartingCleanup w"]
      get_credentials_log_line [of StartingCleanup w]
    by (simp add: w0_def)
  moreover have fr: "drive w1 = drive w" "clock w1 = clock w" "ticks w1 = ticks w"
    using get_credentials_frame [OF c1] by (simp_all add: w0_def log_line_def)
  ultimately have s1: "get_drive_service w0 = (Inr (), w1)"
    using c1 by (simp add: get_drive_service_def)
  have s2: "cleanup_get_folder_id w1 = (Inr (Some (file_id folder)), w1\<lparr>drive := d1\<rparr>)"
    using folder fr(1) by (simp add: cleanup_get_folder_id_def)
  have s3: "cleanup_list_files (file_id folder) (w1\<lparr>drive := d1\<rparr>) = (Inr fs, w1\<lparr>drive := d2\<rparr>)"
    using listing by (simp add: cleanup_list_files_def)
  define w3 where "w3 = log_line (FoundFiles (length fs)) (w1\<lparr>drive := d2\<rparr>)"
  have s4: "datetime_now w3 = (clock w (ticks w), w3\<lparr>ticks := Suc (ticks w3)\<rparr>)"
    using fr(2,3) by (simp add: datetime_now_def w3_def log_line_def)
  define w4 where "w4 = log_line (CutoffDate (cutoff_of w)) (w3\<lparr>ticks := Suc (ticks w3)\<rparr>)"
  have "drive w4 = d2"
    by (simp add: w4_def w3_def log_line_def)
  moreover have "cleanup_old_files w =
             (case cleanup_loop (cutoff_of w) fs 0 w4 of
                (Inl e, w5) \<Rightarrow> (Inl e, w5)
              | (Inr n, w5) \<Rightarrow> (Inr n, log_line (CleanupComplete n) w5))"
    unfolding cleanup_old_files_def w0_def [symmetric] s1
    using nonempty
    by (simp add: s2 s3 w3_def [symmetric] s4 Let_def cutoff_of_def [symmetric] w4_def [symmetric])
  ultimately show ?thesis by blast
qed

lemma get_drive_service_started:
  "\<exists>w1. get_drive_service
           (log_line (WillDeleteOlderThan MAX_AGE_DAYS) (log_line StartingCleanup w)) =
         (fst (get_credentials w), w1) \<and>
        drive w1 = drive w \<and> clock w1 = clock w \<and> ticks w1 = ticks w"
proof -
  define w0 where "w0 = log_line (WillDeleteOlderThan MAX_AGE_DAYS) (log_line StartingCleanup w)"
  obtain r1 w1 where c1: "get_credentials w0 = (r1, w1)"
    by (cases "get_credentials w0")
  have "r1 = fst (get_credentials w)"
    using c1 get_credentials_log_line [of "WillDeleteOlderThan MAX_AGE_DAYS" "log_line StartingCleanup w"]
      get_credentials_log_line [of StartingCleanup w]
    by (simp add: w0_def)
  moreover have "drive w1 = drive w" "clock w1 = clock w" "ticks w1 = ticks w"
    using get_credentials_frame [OF c1] by (simp_all add: w0_def log_line_def)
  ultimately show ?thesis
    using c1 by (simp add: get_drive_service_def w0_def)
qed

lemma cleanup_credentials_fail:
  assumes "fst (get_credentials w) = Inl e"
  shows "fst (cleanup_old_files w) = Inl e \<and> drive (snd (cleanup_old_files w)) = drive w"
proof -
  from get_drive_service_started [of w] assms obtain w1 where
    "get_drive_service
       (log_line (WillDeleteOlderThan MAX_AGE_DAYS) (log_line StartingCleanup w)) = (Inl e, w1)"
    "drive w1 = drive w"
    by auto
  then show ?thesis
    by (simp add: cleanup_old_files_def)
qed

lemma cleanup_lookup_fails:
  assumes "fst (get_credentials w) = Inr ()"
    and "files_list folder_query None DefaultOrder (drive w) = (Inl e, d1)"
  shows "fst (cleanup_old_files w) = Inl e \<and> drive (snd (cleanup_old_files w)) = d1"
proof -
  from get_drive_service_started [of w] assms(1) obtain w1 where
    "get_drive_service
       (log_line (WillDeleteOlderThan MAX_AGE_DAYS) (log_line StartingCleanup w)) = (Inr (), w1)"
    "drive w1 = drive w"
    by auto
  with assms(2) show ?thesis
    by (simp add: cleanup_old_files_def cleanup_get_folder_id_def)
qed

lemma cleanup_no_folder:
  assumes "fst (get_credentials w) = Inr ()"
    and "files_list folder_query None DefaultOrder (drive w) = (Inr fs, d1)"
    and "fs = [] \<or> file_id (hd fs) = []"
  shows "fst (cleanup_old_files w) = Inr 0 \<and> drive (snd (cleanup_old_files w)) = d1"
proof -
  from get_drive_service_started [of w] assms(1) obtain w1 where
    "get_drive_service
       (log_line (WillDeleteOlderThan MAX_AGE_DAYS) (log_line StartingCleanup w)) = (Inr (), w1)"
    "drive w1 = drive w"
    by auto
  with assms(2,3) show ?thesis
    by (cases fs) (auto simp: cleanup_old_files_def cleanup_get_folder_id_def log_line_def)
qed

lemma cleanup_listing_fails:
  assumes "fst (get_credentials w) = Inr ()"
    and "files_list folder_query None DefaultOrder (drive w) = (Inr (folder # others), d1)"
    and "file_id folder \<noteq> []"
    and "files_list (children_query (file_id folder)) (Some 100) ModifiedTimeAsc d1 = (Inl e, d2)"
  shows "fst (cleanup_old_files w) = Inl e \<and> drive (snd (cleanup_old_files w)) = d2"
proof -
  from get_drive_service_started [of w] assms(1) obtain w1 where
    "get_drive_service
       (log_line (WillDeleteOlderThan MAX_AGE_DAYS) (log_line StartingCleanup w)) = (Inr (), w1)"
    "drive w1 = drive w"
    by auto
  with assms(2,3,4) show ?thesis
    by (simp add: cleanup_old_files_def cleanup_get_folder_id_def cleanup_list_files_def)
qed

lemma cleanup_old_files_effect:
  assumes creds: "fst (get_credentials w) = Inr ()"
    and folder: "files_list folder_query None DefaultOrder (drive w) = (Inr (folder # others), d1)"
    and nonempty: "file_id folder \<noteq> []"
    and listing: "files_list (children_query (file_id folder)) (Some 100) ModifiedTimeAsc d1 =
                    (Inr fs, d2)"
    and run: "cleanup_old_files w = (r, w')"
  shows "\<exists>k \<le> length (eligible (cutoff_of w) fs).
           files (drive w') =
             filter (\<lambda>f. file_id f \<notin> set (map file_id (take k (eligible (cutoff_of w) fs))))
               (files (drive w)) \<and>
           (case r of
              Inr m \<Rightarrow> k = length (eligible (cutoff_of w) fs) \<and> m = k \<and>
                requests (drive w') = requests (drive w) @
                  [(ListReq folder_query, None),
                   (ListReq (children_query (file_id folder)), None)] @
                  map ok_delete (eligible (cutoff_of w) fs)
            | Inl e \<Rightarrow> k < length (eligible (cutoff_of w) fs) \<and>
                requests (drive w') = requests (drive w) @
                  [(ListReq folder_query, None),
                   (ListReq (children_query (file_id folder)), None)] @
                  map ok_delete (take k (eligible (cutoff_of w) fs)) @
                  [(DeleteReq (file_id (eligible (cutoff_of w) fs ! k)), Some e)])"
proof -
  from cleanup_old_files_sweep [OF creds folder nonempty listing]
  obtain w4 where w4: "drive w4 = d2"
    and unf: "cleanup_old_files w =
             (case cleanup_loop (cutoff_of w) fs 0 w4 of
                (Inl e, w5) \<Rightarrow> (Inl e, w5)
              | (Inr n, w5) \<Rightarrow> (Inr n, log_line (CleanupComplete n) w5))"
    by blast
  obtain r5 w5 where loop: "cleanup_loop (cutoff_of w) fs 0 w4 = (r5, w5)"
    by (cases "cleanup_loop (cutoff_of w) fs 0 w4")
  from unf loop run have r: "r = r5" and w': "drive w' = drive w5"
    by (auto simp: log_line_def split: sum.splits)
  from files_list_frame [OF folder] files_list_frame [OF listing] w4
  have d2: "files (drive w4) = files (drive w)"
    "requests (drive w4) = requests (drive w) @
       [(ListReq folder_query, None), (ListReq (children_query (file_id folder)), None)]"
    by simp_all
  from cleanup_loop_effect [OF loop] show ?thesis
    unfolding r w' d2
    by (cases r5) auto
qed

lemma files_list_Inr:
  "files_list q ps ord d = (Inr fs, d') \<Longrightarrow> fs = first_page q ps ord d"
  by (auto simp: files_list_def split: option.splits)

lemma first_page_subset: "set (first_page q ps ord d) \<subseteq> set (files d)"
proof -
  have "set (order_files ord xs) = set xs" for xs
    by (cases ord) simp_all
  then show ?thesis
    unfolding first_page_def using set_take_subset by fastforce
qed

section \<open>The batch retention job\<close>

text \<open>
  C6. When the store holds no non-trashed folder with the configured name (and the credentials
  resolve and the folder lookup is answered), the job deletes nothing: the count it returns
  is 0, the objects of the store are untouched, the lookup is the only request it sends, and
  the process ends with status 0.
\<close>

theorem missing_folder_is_noop:
  assumes creds: "fst (get_credentials w) = Inr ()"
    and online: "next_fault (drive w) = None"
    and absent: "\<forall>f \<in> set (files (drive w)). \<not> matches folder_query f"
  shows "fst (main w) = 0 \<and> fst (cleanup_old_files w) = Inr 0 \<and>
         files (drive (snd (main w))) = files (drive w) \<and>
         new_requests (drive w) (drive (snd (main w))) = [(ListReq folder_query, None)]"
proof -
  from absent have "filter (matches folder_query) (files (drive w)) = []"
    by (simp add: filter_empty_conv)
  then have page: "first_page folder_query None DefaultOrder (drive w) = []"
    by (simp add: first_page_def)
  obtain d1 where lookup: "files_list folder_query None DefaultOrder (drive w) = (Inr [], d1)"
    using online page by (simp add: files_list_def)
  from cleanup_no_folder [OF creds lookup] have
    run: "fst (cleanup_old_files w) = Inr 0" "drive (snd (cleanup_old_files w)) = d1"
    by simp_all
  from run have m: "fst (main w) = 0" "drive (snd (main w)) = d1"
    by (cases "cleanup_old_files w"; simp add: main_def log_line_def)+
  from files_list_frame [OF lookup] m run(1) show ?thesis
    by (simp add: new_requests_def)
qed

theorem missing_folder_is_noop_witness:
  "fst (main (example_world [example_file ''a'' 0] [])) = 0 \<and>
   fst (cleanup_old_files (example_world [example_file ''a'' 0] [])) = Inr 0 \<and>
   files (drive (snd (main (example_world [example_file ''a'' 0] [])))) = [example_file ''a'' 0]"
proof -
  have creds: "fst (get_credentials (example_world [example_file ''a'' 0] [])) = Inr ()"
    by (simp add: get_credentials_def example_world_def example_environ_def required_vars_def
          truthy_def)
  have online: "next_fault (drive (example_world [example_file ''a'' 0] [])) = None"
    by (simp add: next_fault_def example_world_def example_drive_def)
  have absent: "\<forall>f \<in> set (files (drive (example_world [example_file ''a'' 0] []))).
                  \<not> matches folder_query f"
    by (simp add: example_world_def example_drive_def example_file_def folder_query_def
          FOLDER_NAME_def)
  from missing_folder_is_noop [OF creds online absent] show ?thesis
    by (simp add: example_world_def example_drive_def)
qed

text \<open>
  C1, as the code has it. The cutoff is strict. In a run that reaches the sweep with listing
  \<open>fs\<close> and reads the clock as \<open>now\<close>, every listed object with
  \<open>now - modifiedTime \<le> maxAge\<close> is still in the store afterwards, whatever the outcome of
  the run; when no delete call fails, so that the run completes, a listed object is gone from
  the store iff \<open>now - modifiedTime > maxAge\<close>, and the count returned is the number of those
  objects. Object ids are unique in the store. (A run that a failed delete cuts short leaves
  the older objects listed after the failure in place.)
\<close>

theorem retention_cutoff_is_strict:
  assumes ids: "distinct (map file_id (files (drive w)))"
    and creds: "fst (get_credentials w) = Inr ()"
    and folder: "files_list folder_query None DefaultOrder (drive w) = (Inr (folder # others), d1)"
    and nonempty: "file_id folder \<noteq> []"
    and listing: "files_list (children_query (file_id folder)) (Some 100) ModifiedTimeAsc d1 =
                    (Inr fs, d2)"
    and run: "cleanup_old_files w = (r, w')"
    and now: "now = clock w (ticks w)"
  shows "(\<forall>f \<in> set fs. now - modifiedTime f \<le> timedelta_days MAX_AGE_DAYS \<longrightarrow>
            f \<in> set (files (drive w'))) \<and>
         (\<forall>n. r = Inr n \<longrightarrow>
            (\<forall>f \<in> set fs. f \<notin> set (files (drive w')) \<longleftrightarrow>
                            timedelta_days MAX_AGE_DAYS < now - modifiedTime f) \<and>
            n = length (filter (\<lambda>f. timedelta_days MAX_AGE_DAYS < now - modifiedTime f) fs))"
proof -
  let ?E = "eligible (cutoff_of w) fs"
  have el: "modifiedTime f < cutoff_of w \<longleftrightarrow> timedelta_days MAX_AGE_DAYS < now - modifiedTime f"
    for f :: drive_file
    by (auto simp: cutoff_of_def now)
  have E: "?E = filter (\<lambda>f. timedelta_days MAX_AGE_DAYS < now - modifiedTime f) fs"
    by (simp add: eligible_def el)
  have "fs = first_page (children_query (file_id folder)) (Some 100) ModifiedTimeAsc d1"
    using listing by (rule files_list_Inr)
  with first_page_subset files_list_frame [OF folder]
  have sub: "set fs \<subseteq> set (files (drive w))"
    by metis
  from ids have inj: "inj_on file_id (set (files (drive w)))"
    by (simp add: distinct_map)
  from cleanup_old_files_effect [OF creds folder nonempty listing run]
  obtain k where k: "k \<le> length ?E"
    and fl: "files (drive w') =
             filter (\<lambda>f. file_id f \<notin> set (map file_id (take k ?E))) (files (drive w))"
    and res0: "case r of Inr m \<Rightarrow> k = length ?E \<and> m = k \<and>
                requests (drive w') = requests (drive w) @
                  [(ListReq folder_query, None),
                   (ListReq (children_query (file_id folder)), None)] @
                  map ok_delete ?E
            | Inl e \<Rightarrow> k < length ?E \<and>
                requests (drive w') = requests (drive w) @
                  [(ListReq folder_query, None),
                   (ListReq (children_query (file_id folder)), None)] @
                  map ok_delete (take k ?E) @
                  [(DeleteReq (file_id (?E ! k)), Some e)]"
    by blast
  have res: "k = length ?E \<and> n = k" if "r = Inr n" for n
    using res0 that by simp
  have keep: "f \<in> set (files (drive w'))"
    if "f \<in> set fs" "now - modifiedTime f \<le> timedelta_days MAX_AGE_DAYS" for f
  proof -
    have "file_id f \<notin> set (map file_id (take k ?E))"
    proof
      assume "file_id f \<in> set (map file_id (take k ?E))"
      then obtain g where g: "g \<in> set (take k ?E)" "file_id g = file_id f"
        by auto
      from g(1) have gE: "g \<in> set ?E"
        by (rule in_set_takeD)
      then have "g \<in> set fs" "timedelta_days MAX_AGE_DAYS < now - modifiedTime g"
        by (simp_all add: E)
      with sub that(1) g(2) inj have "g = f"
        by (meson inj_onD subsetD)
      with \<open>timedelta_days MAX_AGE_DAYS < now - modifiedTime g\<close> that(2) show False
        by simp
    qed
    with that(1) sub show ?thesis
      by (auto simp: fl)
  qed
  have gone: "f \<notin> set (files (drive w'))"
    if "r = Inr n" "f \<in> set fs" "timedelta_days MAX_AGE_DAYS < now - modifiedTime f" for f n
  proof -
    from res [OF that(1)] have "take k ?E = ?E"
      by simp
    moreover from that(2,3) have "f \<in> set ?E"
      by (simp add: E)
    ultimately show ?thesis
      by (auto simp: fl)
  qed
  have count: "n = length (filter (\<lambda>f. timedelta_days MAX_AGE_DAYS < now - modifiedTime f) fs)"
    if "r = Inr n" for n
    using res [OF that] by (simp add: E)
  from keep gone count show ?thesis
    by (metis not_le)
qed

text \<open>
  C8. One cutoff and one listing per sweep. A run that reaches the sweep sends the folder
  lookup and one listing request, and after them only delete requests: they address, in the
  order of that one listing, the objects of it that are older than the one cutoff, which is
  the first clock reading of the run minus the retention window. (The clock is read again
  for each object, for the logged age only.)
\<close>

theorem sweep_uses_one_cutoff_and_one_listing:
  assumes creds: "fst (get_credentials w) = Inr ()"
    and folder: "files_list folder_query None DefaultOrder (drive w) = (Inr (folder # others), d1)"
    and nonempty: "file_id folder \<noteq> []"
    and listing: "files_list (children_query (file_id folder)) (Some 100) ModifiedTimeAsc d1 =
                    (Inr fs, d2)"
    and run: "cleanup_old_files w = (r, w')"
  shows "\<exists>dels. requests (drive w') = requests (drive w) @
                  [(ListReq folder_query, None),
                   (ListReq (children_query (file_id folder)), None)] @ dels \<and>
           map fst dels =
             map (\<lambda>f. DeleteReq (file_id f))
               (take (length dels)
                  (filter (\<lambda>f. modifiedTime f < clock w (ticks w) - timedelta_days MAX_AGE_DAYS)
                     fs))"
proof -
  let ?E = "eligible (cutoff_of w) fs"
  have E: "filter (\<lambda>f. modifiedTime f < clock w (ticks w) - timedelta_days MAX_AGE_DAYS) fs = ?E"
    by (simp add: eligible_def cutoff_of_def)
  from cleanup_old_files_effect [OF creds folder nonempty listing run]
  obtain k where k: "k \<le> length ?E"
    and res: "case r of
              Inr m \<Rightarrow> k = length ?E \<and> m = k \<and>
                requests (drive w') = requests (drive w) @
                  [(ListReq folder_query, None),
                   (ListReq (children_query (file_id folder)), None)] @
                  map ok_delete ?E
            | Inl e \<Rightarrow> k < length ?E \<and>
                requests (drive w') = requests (drive w) @
                  [(ListReq folder_query, None),
                   (ListReq (children_query (file_id folder)), None)] @
                  map ok_delete (take k ?E) @
                  [(DeleteReq (file_id (?E ! k)), Some e)]"
    by blast
  show ?thesis
  proof (cases r)
    case (Inr m)
    with res show ?thesis
      unfolding E
      by (intro exI [of _ "map ok_delete ?E"]) (simp add: ok_delete_def comp_def)
  next
    case (Inl e)
    with res have kl: "k < length ?E" by simp
    from Inl res show ?thesis
      unfolding E
      by (intro exI [of _ "map ok_delete (take k ?E) @ [(DeleteReq (file_id (?E ! k)), Some e)]"])
         (simp add: ok_delete_def comp_def take_Suc_conv_app_nth [OF kl] min_absorb2)
  qed
qed


lemma main_exit_status:
  "fst (main w) = (case fst (cleanup_old_files w) of Inl e \<Rightarrow> 1 | Inr n \<Rightarrow> 0) \<and>
   drive (snd (main w)) = drive (snd (cleanup_old_files w))"
  by (cases "cleanup_old_files w") (auto simp: main_def log_line_def split: sum.splits)

text \<open>
  C2, as the code has it. The sweep stops at the first delete call that fails: the error
  leaves \<^verbatim>\<open>cleanup_old_files\<close>, the job logs and prints "Cleanup failed" with that error as its
  last two lines and ends with status 1, the failed delete is the last request of the run,
  and the objects removed from the store are exactly the eligible objects listed before the
  one whose delete failed.
\<close>

theorem failed_delete_aborts_sweep:
  assumes creds: "fst (get_credentials w) = Inr ()"
    and folder: "files_list folder_query None DefaultOrder (drive w) = (Inr (folder # others), d1)"
    and nonempty: "file_id folder \<noteq> []"
    and listing: "files_list (children_query (file_id folder)) (Some 100) ModifiedTimeAsc d1 =
                    (Inr fs, d2)"
    and run: "cleanup_old_files w = (r, w')"
    and failed: "(DeleteReq fid, Some e) \<in> set (new_requests (drive w) (drive w'))"
  shows "r = Inl e \<and> fst (main w) = 1 \<and>
         snd (main w) = log_line (PrintFailed e) (log_line (CleanupFailed e) w') \<and>
         logged (snd (main w)) = logged w' @ [CleanupFailed e, PrintFailed e] \<and>
         last (requests (drive w')) = (DeleteReq fid, Some e) \<and>
         (\<exists>k < length (eligible (cutoff_of w) fs).
            fid = file_id (eligible (cutoff_of w) fs ! k) \<and>
            files (drive w') =
              filter (\<lambda>f. file_id f \<notin> set (map file_id (take k (eligible (cutoff_of w) fs))))
                (files (drive w)))"
proof -
  let ?E = "eligible (cutoff_of w) fs"
  from cleanup_old_files_effect [OF creds folder nonempty listing run]
  obtain k where k: "k \<le> length ?E"
    and fl: "files (drive w') =
             filter (\<lambda>f. file_id f \<notin> set (map file_id (take k ?E))) (files (drive w))"
    and res: "case r of Inr m \<Rightarrow> k = length ?E \<and> m = k \<and>
                requests (drive w') = requests (drive w) @
                  [(ListReq folder_query, None),
                   (ListReq (children_query (file_id folder)), None)] @
                  map ok_delete ?E
            | Inl e \<Rightarrow> k < length ?E \<and>
                requests (drive w') = requests (drive w) @
                  [(ListReq folder_query, None),
                   (ListReq (children_query (file_id folder)), None)] @
                  map ok_delete (take k ?E) @
                  [(DeleteReq (file_id (?E ! k)), Some e)]"
    by blast
  show ?thesis
  proof (cases r)
    case (Inr m)
    with res failed have False
      by (auto simp: new_requests_def ok_delete_def)
    then show ?thesis ..
  next
    case (Inl e')
    with res have kl: "k < length ?E"
      and rq: "requests (drive w') = requests (drive w) @
                  [(ListReq folder_query, None),
                   (ListReq (children_query (file_id folder)), None)] @
                  map ok_delete (take k ?E) @ [(DeleteReq (file_id (?E ! k)), Some e')]"
      by simp_all
    from failed rq have same: "e' = e" "fid = file_id (?E ! k)"
      by (auto simp: new_requests_def ok_delete_def)
    from rq same have "last (requests (drive w')) = (DeleteReq fid, Some e)"
      by simp
    moreover from run Inl same have "fst (main w) = 1"
      using main_exit_status [of w] by simp
    moreover from run Inl same
    have "snd (main w) = log_line (PrintFailed e) (log_line (CleanupFailed e) w')"
      by (simp add: main_def)
    moreover from this
    have "logged (snd (main w)) = logged w' @ [CleanupFailed e, PrintFailed e]"
      by (simp add: log_line_def)
    ultimately show ?thesis
      using Inl same kl fl by blast
  qed
qed

text \<open>
  C3, as the code has it. The job ends with status 0 exactly when the credentials resolve and
  every request it sends to the store succeeds: the folder lookup, the listing and each
  delete call. In every other run, a single failed delete included, the status is 1.
\<close>

theorem exit_status_reflects_every_failure:
  "fst (main w) =
     (if fst (get_credentials w) = Inr () \<and>
         (\<forall>x \<in> set (new_requests (drive w) (drive (snd (main w)))). snd x = None)
      then 0 else 1)"
proof (cases "fst (get_credentials w)")
  case (Inl e)
  with cleanup_credentials_fail [OF Inl] main_exit_status [of w] show ?thesis
    by simp
next
  case (Inr u)
  then have creds: "fst (get_credentials w) = Inr ()"
    by simp
  obtain r1 d1 where lookup: "files_list folder_query None DefaultOrder (drive w) = (r1, d1)"
    by (cases "files_list folder_query None DefaultOrder (drive w)")
  note fr1 = files_list_frame [OF lookup]
  show ?thesis
  proof (cases r1)
    case (Inl e)
    with cleanup_lookup_fails [OF creds] lookup fr1 main_exit_status [of w] show ?thesis
      by (simp add: new_requests_def)
  next
    case (Inr fs0)
    show ?thesis
    proof (cases "fs0 = [] \<or> file_id (hd fs0) = []")
      case True
      from cleanup_no_folder [OF creds lookup [unfolded Inr] True] fr1 Inr creds
        main_exit_status [of w]
      show ?thesis
        by (simp add: new_requests_def)
    next
      case False
      then obtain folder others where fs0: "fs0 = folder # others" and ne: "file_id folder \<noteq> []"
        by (cases fs0) auto
      note lookup' = lookup [unfolded Inr fs0]
      obtain r2 d2 where listing:
        "files_list (children_query (file_id folder)) (Some 100) ModifiedTimeAsc d1 = (r2, d2)"
        by (cases "files_list (children_query (file_id folder)) (Some 100) ModifiedTimeAsc d1")
      note fr2 = files_list_frame [OF listing]
      show ?thesis
      proof (cases r2)
        case (Inl e)
        with cleanup_listing_fails [OF creds lookup' ne] listing fr1 fr2 Inr
          main_exit_status [of w]
        show ?thesis
          by (simp add: new_requests_def)
      next
        case r2: (Inr fs)
        obtain r w' where run: "cleanup_old_files w = (r, w')"
          by (cases "cleanup_old_files w")
        from cleanup_old_files_effect [OF creds lookup' ne listing [unfolded r2] run]
          run creds main_exit_status [of w]
        show ?thesis
          by (cases r) (auto simp: new_requests_def ok_delete_def)
      qed
    qed
  qed
qed

section \<open>The example runs\<close>

lemmas example_defs =
  boundary_world_def gone_world_def partial_world_def example_world_def example_drive_def
  example_environ_def required_vars_def staging_folder_def kept_file_def old_file_def
  older_file_def example_file_def example_now_def timedelta_days_def day_us_def MAX_AGE_DAYS_def
  FOLDER_NAME_def folder_mime_def

lemmas run_defs =
  cleanup_old_files_def get_drive_service_def get_credentials_def truthy_def
  cleanup_get_folder_id_def cleanup_list_files_def cleanup_delete_file_def files_list_def
  files_delete_def first_page_def next_fault_def record_request_def default_page_size_def
  folder_query_def children_query_def log_line_def datetime_now_def days_of_def main_def

lemma boundary_run:
  "fst (cleanup_old_files boundary_world) = Inr 1"
  "files (drive (snd (cleanup_old_files boundary_world))) = [staging_folder, kept_file]"
  "requests (drive (snd (cleanup_old_files boundary_world))) =
     [(ListReq folder_query, None), (ListReq (children_query ''folder1''), None),
      (DeleteReq ''old'', None)]"
  by (simp_all add: example_defs run_defs)

lemma boundary_hyps:
  "distinct (map file_id (files (drive boundary_world)))"
  "fst (get_credentials boundary_world) = Inr ()"
  "files_list folder_query None DefaultOrder (drive boundary_world) =
     (Inr (staging_folder # []),
      snd (files_list folder_query None DefaultOrder (drive boundary_world)))"
  "file_id staging_folder \<noteq> []"
  "files_list (children_query (file_id staging_folder)) (Some 100) ModifiedTimeAsc
     (snd (files_list folder_query None DefaultOrder (drive boundary_world))) =
     (Inr [old_file, kept_file],
      snd (files_list (children_query (file_id staging_folder)) (Some 100) ModifiedTimeAsc
             (snd (files_list folder_query None DefaultOrder (drive boundary_world)))))"
  by (simp_all add: example_defs run_defs)

lemma gone_run:
  "fst (cleanup_old_files gone_world) = Inl (HttpError 404)"
  "files (drive (snd (cleanup_old_files gone_world))) = [staging_folder, older_file, old_file]"
  "requests (drive (snd (cleanup_old_files gone_world))) =
     [(ListReq folder_query, None), (ListReq (children_query ''folder1''), None),
      (DeleteReq ''older'', Some (HttpError 404))]"
  by (simp_all add: example_defs run_defs)

lemma gone_hyps:
  "fst (get_credentials gone_world) = Inr ()"
  "files_list folder_query None DefaultOrder (drive gone_world) =
     (Inr (staging_folder # []),
      snd (files_list folder_query None DefaultOrder (drive gone_world)))"
  "file_id staging_folder \<noteq> []"
  "files_list (children_query (file_id staging_folder)) (Some 100) ModifiedTimeAsc
     (snd (files_list folder_query None DefaultOrder (drive gone_world))) =
     (Inr [older_file, old_file],
      snd (files_list (children_query (file_id staging_folder)) (Some 100) ModifiedTimeAsc
             (snd (files_list folder_query None DefaultOrder (drive gone_world)))))"
  by (simp_all add: example_defs run_defs)

lemma partial_run:
  "fst (get_credentials partial_world) = Inr ()"
  "fst (cleanup_old_files partial_world) = Inl TransportError"
  "requests (drive (snd (cleanup_old_files partial_world))) =
     [(ListReq folder_query, None), (ListReq (children_query ''folder1''), None),
      (DeleteReq ''older'', None), (DeleteReq ''old'', Some TransportError)]"
  by (simp_all add: example_defs run_defs)

theorem retention_cutoff_is_strict_witness:
  "clock boundary_world (ticks boundary_world) - modifiedTime kept_file =
     timedelta_days MAX_AGE_DAYS \<and>
   clock boundary_world (ticks boundary_world) - modifiedTime old_file =
     timedelta_days MAX_AGE_DAYS + 1000000 \<and>
   kept_file \<in> set (files (drive (snd (cleanup_old_files boundary_world)))) \<and>
   old_file \<notin> set (files (drive (snd (cleanup_old_files boundary_world)))) \<and>
   fst (cleanup_old_files boundary_world) = Inr 1"
proof -
  have run: "cleanup_old_files boundary_world =
               (fst (cleanup_old_files boundary_world), snd (cleanup_old_files boundary_world))"
    by simp
  have ages:
    "clock boundary_world (ticks boundary_world) - modifiedTime kept_file =
       timedelta_days MAX_AGE_DAYS"
    "clock boundary_world (ticks boundary_world) - modifiedTime old_file =
       timedelta_days MAX_AGE_DAYS + 1000000"
    by (simp_all add: example_defs)
  from retention_cutoff_is_strict [OF boundary_hyps run refl] boundary_run(1) ages
  show ?thesis
    by simp
qed

theorem sweep_uses_one_cutoff_and_one_listing_witness:
  "\<exists>dels. requests (drive (snd (cleanup_old_files boundary_world))) =
            requests (drive boundary_world) @
              [(ListReq folder_query, None),
               (ListReq (children_query (file_id staging_folder)), None)] @ dels \<and>
          map fst dels = map (\<lambda>f. DeleteReq (file_id f)) (take (length dels) [old_file])"
proof -
  have run: "cleanup_old_files boundary_world =
               (fst (cleanup_old_files boundary_world), snd (cleanup_old_files boundary_world))"
    by simp
  have "filter (\<lambda>f. modifiedTime f <
                  clock boundary_world (ticks boundary_world) - timedelta_days MAX_AGE_DAYS)
          [old_file, kept_file] = [old_file]"
    by (simp add: example_defs)
  with sweep_uses_one_cutoff_and_one_listing [OF boundary_hyps(2-5) run]
  show ?thesis
    by simp
qed

theorem failed_delete_aborts_sweep_counterexample:
  "fst (cleanup_old_files gone_world) = Inl (HttpError 404) \<and>
   modifiedTime old_file < cutoff_of gone_world \<and>
   old_file \<in> set (files (drive (snd (cleanup_old_files gone_world)))) \<and>
   DeleteReq (file_id old_file) \<notin> fst ` set (requests (drive (snd (cleanup_old_files gone_world))))"
  by (simp add: gone_run) (simp add: example_defs cutoff_of_def)

theorem failed_delete_aborts_sweep_witness:
  "(DeleteReq ''older'', Some (HttpError 404)) \<in>
     set (new_requests (drive gone_world) (drive (snd (cleanup_old_files gone_world)))) \<and>
   fst (cleanup_old_files gone_world) = Inl (HttpError 404) \<and>
   fst (main gone_world) = 1 \<and>
   logged (snd (main gone_world)) =
     logged (snd (cleanup_old_files gone_world)) @
       [CleanupFailed (HttpError 404), PrintFailed (HttpError 404)] \<and>
   last (requests (drive (snd (cleanup_old_files gone_world)))) =
     (DeleteReq ''older'', Some (HttpError 404))"
proof -
  have run: "cleanup_old_files gone_world =
               (fst (cleanup_old_files gone_world), snd (cleanup_old_files gone_world))"
    by simp
  have failed: "(DeleteReq ''older'', Some (HttpError 404)) \<in>
     set (new_requests (drive gone_world) (drive (snd (cleanup_old_files gone_world))))"
    by (simp add: gone_run new_requests_def) (simp add: example_defs)
  from failed_delete_aborts_sweep [OF gone_hyps run failed] failed
  show ?thesis
    by (simp add: log_line_def)
qed

text \<open>
  The run of \<open>gone_world\<close> against C1 as first stated: \<open>old_file\<close> is in the listing and is
  a second older than the retention window, and the sweep leaves it in the store, because
  the delete call for the object listed before it failed.
\<close>

theorem retention_cutoff_counterexample:
  "old_file \<in> set (first_page (children_query ''folder1'') (Some 100) ModifiedTimeAsc
                     (drive gone_world)) \<and>
   timedelta_days MAX_AGE_DAYS <
     clock gone_world (ticks gone_world) - modifiedTime old_file \<and>
   old_file \<in> set (files (drive (snd (cleanup_old_files gone_world))))"
  by (simp add: gone_run) (simp add: example_defs first_page_def children_query_def)

theorem exit_status_counterexample:
  "fst (get_credentials partial_world) = Inr () \<and>
   requests (drive (snd (main partial_world))) =
     [(ListReq folder_query, None), (ListReq (children_query ''folder1''), None),
      (DeleteReq ''older'', None), (DeleteReq ''old'', Some TransportError)] \<and>
   fst (main partial_world) = 1"
  using main_exit_status [of partial_world] by (simp add: partial_run)

theorem exit_status_reflects_every_failure_witness:
  "fst (get_credentials boundary_world) = Inr () \<and>
   map snd (new_requests (drive boundary_world) (drive (snd (main boundary_world)))) =
     [None, None, None] \<and>
   fst (main boundary_world) = 0"
proof -
  have "drive (snd (main boundary_world)) = drive (snd (cleanup_old_files boundary_world))"
    using main_exit_status [of boundary_world] by simp
  then have new: "new_requests (drive boundary_world) (drive (snd (main boundary_world))) =
     [(ListReq folder_query, None), (ListReq (children_query ''folder1''), None),
      (DeleteReq ''old'', None)]"
    by (simp add: new_requests_def boundary_run) (simp add: example_defs)
  with exit_status_reflects_every_failure [of boundary_world] boundary_hyps(2)
  show ?thesis
    by simp
qed

section \<open>The listing step\<close>

lemma length_order_files: "length (order_files ord xs) = length xs"
  by (cases ord) simp_all

lemma set_order_files: "set (order_files ord xs) = set xs"
  by (cases ord) simp_all

text \<open>
  When at most 100 objects match, the listing of the cleanup script is all of them, oldest
  first.
\<close>

lemma cleanup_list_files_small_folder:
  assumes "next_fault (drive w) = None"
    and "length (filter (matches (children_query folder_id)) (files (drive w))) \<le> 100"
  shows "\<exists>fs. fst (cleanup_list_files folder_id w) = Inr fs \<and>
           set fs = {f \<in> set (files (drive w)). folder_id \<in> set (parents f) \<and> \<not> trashed f} \<and>
           sorted (map modifiedTime fs)"
  using assms
  by (auto simp: cleanup_list_files_def files_list_def first_page_def children_query_def)

lemma crowded_children:
  "filter (matches (children_query ''folder1'')) (files (drive crowded_world)) = crowded_files"
proof -
  have "filter (matches (children_query ''folder1'')) crowded_files = crowded_files"
    unfolding crowded_files_def
    by (rule filter_True) (auto simp: children_query_def example_file_def)
  moreover have "\<not> matches (children_query ''folder1'') staging_folder"
    by (simp add: children_query_def staging_folder_def)
  ultimately show ?thesis
    by (simp add: crowded_world_def example_world_def example_drive_def)
qed

text \<open>
  C7 (the code misses it). The listing asks for one page of at most 100 entries and never asks for the next
  page: of the 101 non-trashed objects of the crowded folder it returns 100.
\<close>

theorem listing_stops_after_one_page:
  "length (filter (matches (children_query ''folder1'')) (files (drive crowded_world))) = 101 \<and>
   map_sum id length (fst (cleanup_list_files ''folder1'' crowded_world)) = Inr 100"
proof -
  have len: "length crowded_files = 101"
    by (simp add: crowded_files_def)
  have "next_fault (drive crowded_world) = None"
    by (simp add: next_fault_def crowded_world_def example_world_def example_drive_def)
  then have "fst (cleanup_list_files ''folder1'' crowded_world) =
      Inr (take 100 (sort_key modifiedTime crowded_files))"
    by (simp add: cleanup_list_files_def files_list_def first_page_def crowded_children)
  with len show ?thesis
    by (simp add: crowded_children)
qed

section \<open>Batch upload\<close>

lemma files_create_effect:
  "files_create nm mime ps media d = (r, d') \<Longrightarrow>
     requests d' = requests d @
       [(CreateReq nm mime ps, case r of Inl e \<Rightarrow> Some e | Inr f \<Rightarrow> None)] \<and>
     files d' = (case r of Inl e \<Rightarrow> files d | Inr f \<Rightarrow> files d @ [f])"
  by (auto simp: files_create_def record_request_def Let_def split: option.splits)

lemma upload_loop_effect:
  "upload_loop folder_id n_items us i c s = (c', s') \<Longrightarrow>
     \<exists>new. requests (store s') = requests (store s) @ new \<and>
       map fst new =
         map (\<lambda>u. CreateReq (up_name u) (mime_or_default (up_type u)) [folder_id])
           (filter (\<lambda>u. \<not> isl (up_read u)) us) \<and>
       c' = c + length (filter (\<lambda>x. snd x = None) new) \<and>
       length (files (store s')) = length (files (store s)) + length (filter (\<lambda>x. snd x = None) new) \<and>
       length (filter upload_failed (shown s')) + length (filter (\<lambda>x. snd x = None) new) =
         length (filter upload_failed (shown s)) + length us"
proof (induction us arbitrary: i c s)
  case Nil
  then show ?case by simp
next
  case (Cons u us)
  define s1 where "s1 = display (StatusText (''Uploading: '' @ up_name u @ ''...'')) s"
  have s1: "store s1 = store s" "filter upload_failed (shown s1) = filter upload_failed (shown s)"
    by (simp_all add: s1_def display_def)
  show ?case
  proof (cases "up_read u")
    case (Inl e)
    define s2 where "s2 = display (Progress (i + 1) n_items) (display (UploadFailed (up_name u) e) s1)"
    have s2: "store s2 = store s"
      "length (filter upload_failed (shown s2)) = Suc (length (filter upload_failed (shown s)))"
      by (simp_all add: s2_def display_def s1)
    from Cons.prems Inl have "upload_loop folder_id n_items us (i + 1) c s2 = (c', s')"
      by (simp add: s1_def s2_def Let_def)
    from Cons.IH [OF this] Inl show ?thesis
      unfolding s2 by auto
  next
    case (Inr file_content)
    obtain r d where up: "upload_file folder_id (up_name u) file_content
        (mime_or_default (up_type u)) (store s1) = (r, d)"
      by (cases "upload_file folder_id (up_name u) file_content (mime_or_default (up_type u)) (store s1)")
    note eff = files_create_effect [OF up [unfolded upload_file_def], unfolded s1]
    show ?thesis
    proof (cases r)
      case (Inl e)
      define s2 where "s2 = display (Progress (i + 1) n_items)
        (display (UploadFailed (up_name u) e) (s1\<lparr>store := d\<rparr>))"
      have s2: "store s2 = d"
        "length (filter upload_failed (shown s2)) = Suc (length (filter upload_failed (shown s)))"
        by (simp_all add: s2_def display_def s1)
      from Cons.prems Inr up Inl have "upload_loop folder_id n_items us (i + 1) c s2 = (c', s')"
        by (simp add: s1_def s2_def Let_def)
      from Cons.IH [OF this] obtain new where new:
        "requests (store s') = requests d @ new"
        "map fst new =
           map (\<lambda>u. CreateReq (up_name u) (mime_or_default (up_type u)) [folder_id])
             (filter (\<lambda>u. \<not> isl (up_read u)) us)"
        "c' = c + length (filter (\<lambda>x. snd x = None) new)"
        "length (files (store s')) = length (files d) + length (filter (\<lambda>x. snd x = None) new)"
        "length (filter upload_failed (shown s')) + length (filter (\<lambda>x. snd x = None) new) =
           Suc (length (filter upload_failed (shown s))) + length us"
        unfolding s2 by blast
      from new eff Inl \<open>up_read u = Inr file_content\<close> show ?thesis
        by (intro exI [of _ "(CreateReq (up_name u) (mime_or_default (up_type u)) [folder_id], Some e) # new"])
           simp
    next
      case r: (Inr f)
      define s2 where "s2 = display (Progress (i + 1) n_items) (s1\<lparr>store := d\<rparr>)"
      have s2: "store s2 = d"
        "length (filter upload_failed (shown s2)) = length (filter upload_failed (shown s))"
        by (simp_all add: s2_def display_def s1)
      from Cons.prems Inr up r have "upload_loop folder_id n_items us (i + 1) (c + 1) s2 = (c', s')"
        by (simp add: s1_def s2_def Let_def)
      from Cons.IH [OF this] obtain new where new:
        "requests (store s') = requests d @ new"
        "map fst new =
           map (\<lambda>u. CreateReq (up_name u) (mime_or_default (up_type u)) [folder_id])
             (filter (\<lambda>u. \<not> isl (up_read u)) us)"
        "c' = c + 1 + length (filter (\<lambda>x. snd x = None) new)"
        "length (files (store s')) = length (files d) + length (filter (\<lambda>x. snd x = None) new)"
        "length (filter upload_failed (shown s')) + length (filter (\<lambda>x. snd x = None) new) =
           length (filter upload_failed (shown s)) + length us"
        unfolding s2 by blast
      from new eff r \<open>up_read u = Inr file_content\<close> show ?thesis
        by (intro exI [of _ "(CreateReq (up_name u) (mime_or_default (up_type u)) [folder_id], None) # new"])
           simp
    qed
  qed
qed

text \<open>
  C5. The batch upload treats each item on its own. Every selected item whose content can be
  read is sent to the store, in the order of the selection, whatever happened to the items
  before it; the success count is exactly the number of uploads the store accepted, each of
  which added one object; every other item shows one error line; and a positive count is
  the one reported.
\<close>

theorem batch_upload_is_per_item:
  assumes "upload_all folder_id us s = (success_count, s')"
  shows "\<exists>new. requests (store s') = requests (store s) @ new \<and>
           map fst new =
             map (\<lambda>u. CreateReq (up_name u) (mime_or_default (up_type u)) [folder_id])
               (filter (\<lambda>u. \<not> isl (up_read u)) us) \<and>
           success_count = length (filter (\<lambda>x. snd x = None) new) \<and>
           length (files (store s')) = length (files (store s)) + success_count \<and>
           length (filter upload_failed (shown s')) + success_count =
             length (filter upload_failed (shown s)) + length us \<and>
           (0 < success_count \<longrightarrow> Success success_count \<in> set (shown s'))"
proof (cases "us = []")
  case True
  with assms show ?thesis
    by (simp add: upload_all_def)
next
  case False
  define s0 where "s0 = display (StatusText []) (display (Progress 0 (length us)) s)"
  have s0: "store s0 = store s" "filter upload_failed (shown s0) = filter upload_failed (shown s)"
    by (simp_all add: s0_def display_def)
  obtain c1 s1 where loop: "upload_loop folder_id (length us) us 0 0 s0 = (c1, s1)"
    by (cases "upload_loop folder_id (length us) us 0 0 s0")
  from False loop have "upload_all folder_id us s =
      (c1, if c1 > 0
           then display CacheCleared (display Balloons (display (Success c1)
                  (display (StatusText ''Upload complete!'') s1)))
           else display (StatusText ''Upload complete!'') s1)"
    by (simp add: upload_all_def s0_def Let_def)
  with assms have c: "success_count = c1" and st: "store s' = store s1"
    and sh: "filter upload_failed (shown s') = filter upload_failed (shown s1)"
    and rep: "0 < success_count \<longrightarrow> Success success_count \<in> set (shown s')"
    by (auto simp: display_def split: if_splits)
  from upload_loop_effect [OF loop] rep show ?thesis
    unfolding c st sh s0 by auto
qed

lemmas upload_defs =
  upload_all_def upload_file_def files_create_def fresh_id_def next_fault_def
  record_request_def display_def mime_or_default_def example_uploads_def example_session_def
  example_drive_def staging_folder_def

theorem batch_upload_is_per_item_witness:
  "fst (upload_all ''folder1'' example_uploads example_session) = 2 \<and>
   map snd (requests (store (snd (upload_all ''folder1'' example_uploads example_session)))) =
     [None, Some TransportError, None] \<and>
   length (files (store (snd (upload_all ''folder1'' example_uploads example_session)))) = 3 \<and>
   Success 2 \<in> set (shown (snd (upload_all ''folder1'' example_uploads example_session)))"
proof -
  have run: "upload_all ''folder1'' example_uploads example_session =
     (fst (upload_all ''folder1'' example_uploads example_session),
      snd (upload_all ''folder1'' example_uploads example_session))"
    by simp
  have ev: "fst (upload_all ''folder1'' example_uploads example_session) = 2"
    "map snd (requests (store (snd (upload_all ''folder1'' example_uploads example_session)))) =
       [None, Some TransportError, None]"
    "files (store example_session) = [staging_folder]"
    by (simp_all add: upload_defs Let_def)
  from batch_upload_is_per_item [OF run] ev show ?thesis
    by auto
qed

section \<open>Folder resolution\<close>








section \<open>Chunked download\<close>

lemma download_loop_reaches_done:
  assumes fin: "next_chunk n = Inr (chunk, True)"
    and before: "\<forall>k < n. \<exists>c. next_chunk k = Inr (c, False)"
  shows "i \<le> n \<Longrightarrow>
     download_loop next_chunk i buf =
       Some (Inr (buf @ concat (map (chunk_at next_chunk) [i..<Suc n]), Suc n))"
proof (induction "n - i" arbitrary: i buf)
  case 0
  then have "i = n" by simp
  with fin show ?case
    by (subst download_loop.simps) (simp add: chunk_at_def)
next
  case (Suc m)
  then have lt: "i < n" by simp
  with before obtain c where c: "next_chunk i = Inr (c, False)"
    by blast
  from Suc.hyps(2) lt have "m = n - Suc i" "Suc i \<le> n"
    by simp_all
  from Suc.hyps(1) [OF this]
  have "download_loop next_chunk (Suc i) (buf @ c) =
      Some (Inr ((buf @ c) @ concat (map (chunk_at next_chunk) [Suc i..<Suc n]), Suc n))" .
  moreover have "[i..<Suc n] = i # [Suc i..<Suc n]"
    using lt by (simp add: upt_conv_Cons)
  ultimately show ?case
    using c by (subst download_loop.simps) (simp add: chunk_at_def)
qed

text \<open>
  C9. The download loop returns once the store reports the transfer done. When the answer to
  call \<open>n\<close> is the first to say "done" (the calls before it were answered with a chunk and
  "not done"), \<^verbatim>\<open>download_file\<close> returns, its buffer holds the chunks of the calls \<open>0\<close> to
  \<open>n\<close> in order, which is the whole content the store sent, and it has made \<open>n + 1\<close> calls
  of \<^verbatim>\<open>next_chunk\<close>: none after the one that reported "done".
\<close>

theorem download_returns_when_store_reports_done:
  assumes "next_chunk n = Inr (chunk, True)"
    and "\<forall>k < n. \<exists>c. next_chunk k = Inr (c, False)"
  shows "download_file next_chunk =
           Some (Inr (concat (map (chunk_at next_chunk) [0..<Suc n]), Suc n))"
  using download_loop_reaches_done [OF assms, of 0 "[]"]
  by (simp add: download_file_def)

theorem download_returns_when_store_reports_done_witness:
  "three_chunks 2 = Inr (''C'', True) \<and>
   three_chunks 0 = Inr (''A'', False) \<and> three_chunks 1 = Inr (''B'', False) \<and>
   download_file three_chunks = Some (Inr (''ABC'', 3))"
proof -
  have fin: "three_chunks 2 = Inr (''C'', True)"
    by (simp add: three_chunks_def)
  have c0: "three_chunks 0 = Inr (''A'', False)" and c1: "three_chunks 1 = Inr (''B'', False)"
    by (simp_all add: three_chunks_def)
  have before: "\<forall>k < 2. \<exists>c. three_chunks k = Inr (c, False)"
    by (simp add: three_chunks_def)
  have "[0..<Suc 2] = [0, 1, 2]"
    by (simp add: upt_conv_Cons)
  with download_returns_when_store_reports_done [OF fin before] fin c0 c1
  show ?thesis
    by (simp add: chunk_at_def)
qed

section \<open>Size formatting\<close>

lemma round_half_even_bounds:
  "\<lfloor>x\<rfloor> \<le> round_half_even x" "round_half_even x \<le> \<lfloor>x\<rfloor> + 1"
  by (simp_all add: round_half_even_def Let_def)

lemma round_half_even_of_int: "round_half_even (of_int k) = k"
  by (simp add: round_half_even_def)

lemma round_half_even_ge:
  assumes "of_int a \<le> x"
  shows "a \<le> round_half_even x"
proof -
  from assms have "a \<le> \<lfloor>x\<rfloor>"
    by (simp add: le_floor_iff)
  with round_half_even_bounds(1) [of x] show ?thesis
    by simp
qed

lemma round_half_even_le:
  assumes "x \<le> of_int b"
  shows "round_half_even x \<le> b"
proof (cases "x = of_int b")
  case True
  then show ?thesis by (simp add: round_half_even_of_int)
next
  case False
  with assms have "x < of_int b" by simp
  then have "\<lfloor>x\<rfloor> < b" by (simp add: floor_less_iff)
  with round_half_even_bounds(2) [of x] show ?thesis by simp
qed

lemma round_half_even_reaches_even:
  assumes "even K"
  shows "K \<le> round_half_even x \<longleftrightarrow> of_int K - 1 / 2 \<le> x"
proof
  assume low: "of_int K - 1 / 2 \<le> x"
  show "K \<le> round_half_even x"
  proof (cases "K \<le> \<lfloor>x\<rfloor>")
    case True
    with round_half_even_bounds(1) [of x] show ?thesis by simp
  next
    case False
    have "of_int (K - 1) \<le> x"
      using low by simp
    then have "K - 1 \<le> \<lfloor>x\<rfloor>"
      by (simp add: le_floor_iff)
    with False have fl: "\<lfloor>x\<rfloor> = K - 1" by simp
    then have odd: "odd \<lfloor>x\<rfloor>" using assms by simp
    have "1 / 2 \<le> x - of_int \<lfloor>x\<rfloor>"
      using low fl by simp
    with odd fl show ?thesis
      by (simp add: round_half_even_def Let_def)
  qed
next
  assume reach: "K \<le> round_half_even x"
  show "of_int K - 1 / 2 \<le> x"
  proof (rule ccontr)
    assume "\<not> of_int K - 1 / 2 \<le> x"
    then have lt: "x < of_int K - 1 / 2" by simp
    then have "x < of_int K" by simp
    then have fl: "\<lfloor>x\<rfloor> \<le> K - 1"
      by (simp add: floor_less_iff)
    show False
    proof (cases "\<lfloor>x\<rfloor> = K - 1")
      case True
      with lt have "x - of_int \<lfloor>x\<rfloor> < 1 / 2" by simp
      then have "round_half_even x = \<lfloor>x\<rfloor>"
        by (simp add: round_half_even_def Let_def)
      with True reach show False by simp
    next
      case False
      with fl round_half_even_bounds(2) [of x] reach show False by simp
    qed
  qed
qed

text \<open>The quotient \<open>n / 1024\<close> as a double: the exponent is that of \<open>n div 1024\<close>.\<close>

lemma to_double_div_1024:
  assumes "1024 \<le> n"
  obtains e m where "2 ^ e * 1024 \<le> n" "n < 2 ^ Suc e * 1024"
    "m = round_half_even (of_int n * 2 ^ 42 / 2 ^ e)"
    "to_double (of_int n / 1024) =
       (if double_limit \<le> of_int m * 2 ^ e / 2 ^ 52 then Inl OverflowError
        else Inr (of_int m * 2 ^ e / 2 ^ 52))"
proof -
  define q where "q = n div 1024"
  define e where "e = nat (bitlen q - 1)"
  define m where "m = round_half_even (of_int n * 2 ^ 42 / 2 ^ e)"
  have q: "0 < q" using assms by (simp add: q_def pos_imp_zdiv_pos_iff)
  have fl: "\<lfloor>(of_int n :: rat) / 1024\<rfloor> = q"
    using floor_divide_of_int_eq [of n 1024, where ?'a = rat] by (simp add: q_def)
  from q have "1 \<le> bitlen q"
    by (simp add: bitlen_alt_def)
  then have "nat (bitlen q) = Suc e"
    by (simp add: e_def)
  with bitlen_bounds [OF q] have b: "2 ^ e \<le> q" "q < 2 ^ Suc e"
    by (simp_all add: e_def)
  have dm: "n = 1024 * q + n mod 1024" "0 \<le> n mod 1024" "n mod 1024 < 1024"
    by (simp_all add: q_def)
  from b(1) dm have 1: "2 ^ e * 1024 \<le> n" by linarith
  from b(2) have "q + 1 \<le> 2 ^ Suc e" by simp
  with dm have 2: "n < 2 ^ Suc e * 1024" by linarith
  have sc: "(of_int n :: rat) / 1024 * 2 ^ 52 / 2 ^ e = of_int n * 2 ^ 42 / 2 ^ e"
    by simp
  have 3: "to_double (of_int n / 1024) =
       (if double_limit \<le> of_int m * 2 ^ e / 2 ^ 52 then Inl OverflowError
        else Inr (of_int m * 2 ^ e / 2 ^ 52))"
    unfolding to_double_def fl e_def [symmetric] Let_def sc m_def [symmetric] ..
  from 1 2 m_def 3 show thesis by (rule that)
qed

text \<open>The mantissa has 53 bits, so the double lies between \<open>2 ^ e\<close> and \<open>2 ^ (e + 1)\<close>.\<close>

lemma mantissa_bounds:
  assumes "2 ^ e * 1024 \<le> n" "n < 2 ^ Suc e * 1024"
    and "m = round_half_even (of_int n * 2 ^ 42 / 2 ^ e)"
  shows "2 ^ 52 \<le> m" "m \<le> 2 ^ 53"
proof -
  have "(of_int (2 ^ e * 1024) :: rat) \<le> of_int n"
    using assms(1) by (simp only: of_int_le_iff)
  then have "(2 :: rat) ^ 52 * 2 ^ e \<le> of_int n * 2 ^ 42"
    by simp
  then have "(of_int (2 ^ 52) :: rat) \<le> of_int n * 2 ^ 42 / 2 ^ e"
    by (simp add: pos_le_divide_eq)
  then show "2 ^ 52 \<le> m"
    unfolding assms(3) by (rule round_half_even_ge)
  have "(of_int n :: rat) < of_int (2 ^ Suc e * 1024)"
    using assms(2) by (simp only: of_int_less_iff)
  then have "(of_int n :: rat) * 2 ^ 42 \<le> 2 ^ 53 * 2 ^ e"
    by simp
  then have "(of_int n :: rat) * 2 ^ 42 / 2 ^ e \<le> of_int (2 ^ 53)"
    by (simp add: pos_divide_le_eq)
  then show "m \<le> 2 ^ 53"
    unfolding assms(3) by (rule round_half_even_le)
qed


lemma overflow_iff_product:
  "double_limit \<le> of_int m * 2 ^ e / 2 ^ 52 \<longleftrightarrow> (2 :: rat) ^ 1076 \<le> of_int m * 2 ^ e"
  by (simp add: double_limit_def pos_le_divide_eq)

lemma to_double_exact:
  assumes "1024 \<le> n" "n < 2 ^ 40"
  shows "to_double (of_int n / 1024) = Inr (of_int n / 1024)"
proof -
  from to_double_div_1024 [OF assms(1)] obtain e m where
    e: "2 ^ e * 1024 \<le> n" "n < 2 ^ Suc e * 1024"
    and m: "m = round_half_even (of_int n * 2 ^ 42 / 2 ^ e)"
    and td: "to_double (of_int n / 1024) =
       (if double_limit \<le> of_int m * 2 ^ e / 2 ^ 52 then Inl OverflowError
        else Inr (of_int m * 2 ^ e / 2 ^ 52))"
    by blast
  from e(1) assms(2) have "(2 :: int) ^ e < 2 ^ 30"
    by simp
  then have "e < 30"
    using power_less_imp_less_exp [of "2 :: int" e 30] by simp
  then have split: "(2 :: rat) ^ 42 = 2 ^ (42 - e) * 2 ^ e"
    by (simp add: power_add [symmetric])
  have "(of_int n :: rat) * 2 ^ 42 / 2 ^ e = of_int (n * 2 ^ (42 - e))"
    unfolding split by simp
  then have m': "m = n * 2 ^ (42 - e)"
    unfolding m by (simp only: round_half_even_of_int)
  have "(of_int m :: rat) * 2 ^ e = of_int n * 2 ^ 42"
    unfolding m' split by simp
  then have y: "(of_int m :: rat) * 2 ^ e / 2 ^ 52 = of_int n / 1024"
    by simp
  have "(of_int n :: rat) < of_int (2 ^ 40)"
    using assms(2) by (simp only: of_int_less_iff)
  then have "\<not> double_limit \<le> (of_int n :: rat) / 1024"
    by (simp add: double_limit_def)
  then show ?thesis
    unfolding td y by simp
qed

lemma to_double_large:
  assumes "2 ^ 40 \<le> n"
  shows "to_double (of_int n / 1024) = Inl OverflowError \<or>
         (\<exists>y. to_double (of_int n / 1024) = Inr y \<and> 2 ^ 30 \<le> y)"
proof -
  from assms have "1024 \<le> n" by simp
  from to_double_div_1024 [OF this] obtain e m where
    e: "2 ^ e * 1024 \<le> n" "n < 2 ^ Suc e * 1024"
    and m: "m = round_half_even (of_int n * 2 ^ 42 / 2 ^ e)"
    and td: "to_double (of_int n / 1024) =
       (if double_limit \<le> of_int m * 2 ^ e / 2 ^ 52 then Inl OverflowError
        else Inr (of_int m * 2 ^ e / 2 ^ 52))"
    by blast
  from e(2) assms have "(2 :: int) ^ 30 < 2 ^ Suc e"
    by simp
  then have "30 < Suc e"
    using power_less_imp_less_exp [of "2 :: int" 30 "Suc e"] by simp
  then have "(2 :: rat) ^ 30 \<le> 2 ^ e"
    by (intro power_increasing) simp_all
  moreover have "(of_int (2 ^ 52) :: rat) \<le> of_int m"
    using mantissa_bounds(1) [OF e m] by (simp only: of_int_le_iff)
  then have "(2 :: rat) ^ e * 2 ^ 52 \<le> of_int m * 2 ^ e"
    by simp
  then have "(2 :: rat) ^ e \<le> of_int m * 2 ^ e / 2 ^ 52"
    by (simp add: pos_le_divide_eq)
  ultimately have big: "(2 :: rat) ^ 30 \<le> of_int m * 2 ^ e / 2 ^ 52"
    by (rule order_trans)
  define y where "y = (of_int m :: rat) * 2 ^ e / 2 ^ 52"
  from big have "2 ^ 30 \<le> y"
    by (simp only: y_def)
  then show ?thesis
    unfolding td y_def [symmetric] by (cases "double_limit \<le> y") (simp_all del: power_numeral)
qed

lemma to_double_overflow_iff:
  assumes "1024 \<le> n"
  shows "to_double (of_int n / 1024) = Inl OverflowError \<longleftrightarrow> overflow_from \<le> n"
proof -
  from to_double_div_1024 [OF assms(1)] obtain e m where
    e: "2 ^ e * 1024 \<le> n" "n < 2 ^ Suc e * 1024"
    and m: "m = round_half_even (of_int n * 2 ^ 42 / 2 ^ e)"
    and td: "to_double (of_int n / 1024) =
       (if double_limit \<le> of_int m * 2 ^ e / 2 ^ 52 then Inl OverflowError
        else Inr (of_int m * 2 ^ e / 2 ^ 52))"
    by blast
  have ov: "to_double (of_int n / 1024) = Inl OverflowError \<longleftrightarrow>
      (2 :: rat) ^ 1076 \<le> of_int m * 2 ^ e"
    unfolding td overflow_iff_product [symmetric] by simp
  have lo: "(of_int (2 ^ 52) :: rat) \<le> of_int m" and hi: "(of_int m :: rat) \<le> of_int (2 ^ 53)"
    using mantissa_bounds [OF e m] by (simp_all only: of_int_le_iff)
  consider "e < 1023" | "e = 1023" | "1023 < e"
    by linarith
  then show ?thesis
  proof cases
    case 1
    then have "(2 :: rat) ^ e \<le> 2 ^ 1022"
      by (intro power_increasing) simp_all
    with hi have "(of_int m :: rat) * 2 ^ e \<le> of_int (2 ^ 53) * 2 ^ 1022"
      by (intro mult_mono) simp_all
    also have "\<dots> < (2 :: rat) ^ 1076"
      by simp
    finally have no: "\<not> (2 :: rat) ^ 1076 \<le> of_int m * 2 ^ e"
      by simp
    from 1 have "(2 :: int) ^ Suc e \<le> 2 ^ 1023"
      by (intro power_increasing) simp_all
    then have "(2 :: int) ^ Suc e * 1024 \<le> 2 ^ 1023 * 1024"
      by simp
    with e(2) have "n < 2 ^ 1023 * 1024"
      by (rule less_le_trans)
    then have "\<not> overflow_from \<le> n"
      by (simp add: overflow_from_def)
    with no ov show ?thesis by simp
  next
    case 3
    then have "(2 :: rat) ^ 1024 \<le> 2 ^ e"
      by (intro power_increasing) simp_all
    with lo have "(of_int (2 ^ 52) :: rat) * 2 ^ 1024 \<le> of_int m * 2 ^ e"
      by (intro mult_mono) simp_all
    then have yes: "(2 :: rat) ^ 1076 \<le> of_int m * 2 ^ e"
      by simp
    from 3 have "(2 :: int) ^ 1024 \<le> 2 ^ e"
      by (intro power_increasing) simp_all
    then have "(2 :: int) ^ 1024 * 1024 \<le> 2 ^ e * 1024"
      by simp
    with e(1) have "2 ^ 1024 * 1024 \<le> n"
      by (rule order_trans [rotated])
    then have "overflow_from \<le> n"
      by (simp add: overflow_from_def)
    with yes ov show ?thesis by simp
  next
    case 2
    have "(2 :: rat) ^ 1076 \<le> of_int m * 2 ^ 1023 \<longleftrightarrow> (of_int (2 ^ 53) :: rat) \<le> of_int m"
      by simp
    also have "\<dots> \<longleftrightarrow> 2 ^ 53 \<le> m"
      by (simp only: of_int_le_iff)
    also have "\<dots> \<longleftrightarrow> of_int (2 ^ 53) - 1 / 2 \<le> (of_int n :: rat) * 2 ^ 42 / 2 ^ 1023"
      unfolding m 2 by (rule round_half_even_reaches_even) simp
    also have "\<dots> \<longleftrightarrow> (of_int overflow_from :: rat) \<le> of_int n"
      by (simp add: overflow_from_def pos_le_divide_eq)
    also have "\<dots> \<longleftrightarrow> overflow_from \<le> n"
      by (simp only: of_int_le_iff)
    finally show ?thesis
      unfolding ov 2 .
  qed
qed


lemma overflow_from_large: "2 ^ 40 < overflow_from"
  by (simp add: overflow_from_def)

lemma int_to_double_small:
  assumes "0 \<le> n" "n < 2 ^ 30"
  shows "int_to_double n = Inr (of_int n)"
proof (cases "n = 0")
  case True
  then show ?thesis by (simp add: int_to_double_def)
next
  case False
  with assms have "1024 \<le> n * 1024" "n * 1024 < 2 ^ 40"
    by simp_all
  from to_double_exact [OF this] have "to_double (of_int n) = Inr (of_int n)"
    by simp
  with False assms(1) show ?thesis
    by (simp add: int_to_double_def)
qed

lemma format_size_bytes:
  assumes "0 \<le> n" "n < 1024"
  shows "format_size (Some n) = Inr (format_1f (of_int n) @ '' B'')"
proof -
  from assms have "int_to_double n = Inr (of_int n)"
    by (intro int_to_double_small) simp_all
  with assms(2) show ?thesis
    by (simp add: format_size_def format_number_def)
qed

lemma format_loop_float:
  "format_loop [''KB'', ''MB'', ''GB''] (PyFloat y) =
     Inr (if y < 1024 then format_1f y @ '' KB''
          else if y / 1024 < 1024 then format_1f (y / 1024) @ '' MB''
          else if y / 1024 / 1024 < 1024 then format_1f (y / 1024 / 1024) @ '' GB''
          else format_1f (y / 1024 / 1024 / 1024) @ '' TB'')"
  by (simp add: format_number_def)

lemma format_size_exact:
  assumes "1024 \<le> n" "n < 2 ^ 40"
  shows "\<exists>v. format_size (Some n) =
     Inr (format_1f v @ '' '' @
       (if n < 1024 ^ 2 then ''KB'' else if n < 1024 ^ 3 then ''MB'' else ''GB''))"
proof -
  define y :: rat where "y = of_int n / 1024"
  have d: "divide_1024 (PyInt n) = Inr (PyFloat y)"
    by (simp add: to_double_exact [OF assms] y_def)
  from assms have "\<not> n < 1024"
    by simp
  then have fs: "format_size (Some n) = format_loop [''KB'', ''MB'', ''GB''] (PyFloat y)"
    unfolding format_size_def by (simp add: d del: divide_1024.simps format_loop.simps(2))
       (simp add: d del: divide_1024.simps)
  have k: "y < 1024 \<longleftrightarrow> n < 1024 ^ 2" "y / 1024 < 1024 \<longleftrightarrow> n < 1024 ^ 3"
    "y / 1024 / 1024 < 1024 \<longleftrightarrow> n < 1024 ^ 4"
    using of_int_less_iff [of n "1024 ^ 2", where ?'a = rat]
      of_int_less_iff [of n "1024 ^ 3", where ?'a = rat]
      of_int_less_iff [of n "1024 ^ 4", where ?'a = rat]
    by (simp_all add: y_def)
  from assms(2) have "n < 1024 ^ 4"
    by simp
  then show ?thesis
    unfolding fs format_loop_float k by auto
qed

lemma format_size_tera:
  assumes "2 ^ 40 \<le> n" "n < overflow_from"
  shows "\<exists>v. format_size (Some n) = Inr (format_1f v @ '' TB'')"
proof -
  from assms(1) have n: "1024 \<le> n" "\<not> n < 1024"
    by simp_all
  from to_double_overflow_iff [OF n(1)] assms(2)
  have "to_double (of_int n / 1024) \<noteq> Inl OverflowError"
    by simp
  with to_double_large [OF assms(1)] obtain y where
    y: "to_double (of_int n / 1024) = Inr y" "2 ^ 30 \<le> y"
    by blast
  from y(2) have "\<not> y < 1024" "\<not> y / 1024 < 1024" "\<not> y / 1024 / 1024 < 1024"
    by (simp_all add: pos_divide_less_eq)
  with y(1) n(2) have "format_size (Some n) = Inr (format_1f (y / 1024 / 1024 / 1024) @ '' TB'')"
    by (simp add: format_size_def format_number_def)
  then show ?thesis ..
qed

lemma format_size_overflow:
  assumes "overflow_from \<le> n"
  shows "format_size (Some n) = Inl OverflowError"
proof -
  from assms overflow_from_large have n: "1024 \<le> n" "\<not> n < 1024"
    by simp_all
  from to_double_overflow_iff [OF n(1)] assms
  have "to_double (of_int n / 1024) = Inl OverflowError"
    by simp
  with n(2) show ?thesis
    by (simp add: format_size_def)
qed

lemma format_size_below_overflow:
  assumes "0 \<le> n" "n < overflow_from"
  shows "\<exists>v. format_size (Some n) =
         Inr (format_1f v @ '' '' @
           (if n < 1024 then ''B'' else if n < 1024 ^ 2 then ''KB''
            else if n < 1024 ^ 3 then ''MB'' else if n < 1024 ^ 4 then ''GB'' else ''TB''))"
proof -
  consider "n < 1024" | "1024 \<le> n" "n < 2 ^ 40" | "2 ^ 40 \<le> n"
    by linarith
  then show ?thesis
  proof cases
    case 1
    with format_size_bytes [OF assms(1) 1] show ?thesis
      by auto
  next
    case 2
    from 2 have "\<not> n < 1024" "n < 1024 ^ 4"
      by simp_all
    with format_size_exact [OF 2] show ?thesis
      by auto
  next
    case 3
    then have "\<not> n < 1024" "\<not> n < 1024 ^ 2" "\<not> n < 1024 ^ 3" "\<not> n < 1024 ^ 4"
      by simp_all
    with format_size_tera [OF 3 assms(2)] show ?thesis
      by auto
  qed
qed

text \<open>
  Far beyond the sizes a store can report, from \<open>2 ^ 1034 - 2 ^ 980\<close> on, the quotient of the
  first division no longer fits a double.
\<close>

lemma format_size_beyond_doubles:
  "format_size (Some (2 ^ 1034)) = Inl OverflowError"
  by (rule format_size_overflow) (simp add: overflow_from_def)

lemma format_size_example: "format_size (Some 1536) = Inr ''1.5 KB''"
proof -
  have "divide_1024 (PyInt 1536) = Inr (PyFloat (of_int 1536 / 1024))"
    using to_double_exact [of 1536] by simp
  then have "format_size (Some 1536) = Inr (format_1f (of_int 1536 / 1024) @ '' KB'')"
    by (simp add: format_size_def format_number_def del: divide_1024.simps)
  moreover have "format_1f (of_int 1536 / 1024) = ''1.5''"
    by (simp add: format_1f_def round_half_even_def digit_char_def Let_def)
  ultimately show ?thesis
    by simp
qed

text \<open>
  C10. The size formatter is total on what it receives. \<^verbatim>\<open>format_size(None)\<close> is exactly
  \<^verbatim>\<open>"N/A"\<close>, and for every non-negative byte count of the store's 64-bit range the result is
  a number, a space and exactly one unit: \<^verbatim>\<open>B\<close> iff the count is below 1024, then \<^verbatim>\<open>KB\<close>,
  \<^verbatim>\<open>MB\<close>, \<^verbatim>\<open>GB\<close> below the next powers of 1024, and \<^verbatim>\<open>TB\<close> for every count from \<open>1024 ^ 4\<close>
  on.
\<close>

theorem format_size_number_and_unit:
  "format_size None = Inr ''N/A'' \<and>
   (0 \<le> n \<and> n < drive_size_limit \<longrightarrow>
      (\<exists>v. format_size (Some n) =
         Inr (format_1f v @ '' '' @
           (if n < 1024 then ''B'' else if n < 1024 ^ 2 then ''KB''
            else if n < 1024 ^ 3 then ''MB'' else if n < 1024 ^ 4 then ''GB'' else ''TB''))))"
proof -
  have none: "format_size None = Inr ''N/A''"
    by (simp add: format_size_def)
  have "drive_size_limit < overflow_from"
    by (simp add: drive_size_limit_def overflow_from_def)
  then have "n < overflow_from" if "n < drive_size_limit"
    using that by simp
  with none format_size_below_overflow [of n] show ?thesis
    by blast
qed

theorem format_size_number_and_unit_witness:
  "(0 :: int) \<le> 1536 \<and> 1536 < drive_size_limit \<and>
   (\<exists>v. format_size (Some 1536) = Inr (format_1f v @ '' KB'')) \<and>
   format_size (Some 1536) = Inr ''1.5 KB''"
proof -
  have a: "(0 :: int) \<le> 1536 \<and> 1536 < drive_size_limit"
    by (simp add: drive_size_limit_def)
  with format_size_number_and_unit [of 1536]
  have "\<exists>v. format_size (Some 1536) = Inr (format_1f v @ '' KB'')"
    by simp
  with a format_size_example show ?thesis
    by blast
qed

end
